theory Spec2Isabelle
  imports Main
begin

section \<open>The Paice/Husk stemmer of paicehusk_ansic.c\<close>

text \<open>
  C strings are modelled as \<^typ>\<open>string\<close> (the characters before the terminating NUL),
  \<open>strlen\<close> as \<^const>\<open>length\<close>. The fixed buffers of the program
  (\<open>SHORTSTR = 63\<close>, \<open>LONGSTR = 255\<close>) appear as explicit bounds: \<open>strncpy\<close> and
  \<open>strncat\<close> truncate, and a write or read outside a buffer or an array is the outcome
  \<open>Undefined_behaviour\<close>. A loop that may spin forever is a partial function into
  \<^typ>\<open>'a option\<close>, where \<^const>\<open>None\<close> means that the C function does not return.
\<close>

subsection \<open>Data\<close>

datatype error =
    Cannot_open_rule_file      \<comment> \<open>\<open>perror("Cannot open rule file"); return NULL\<close>\<close>
  | Invalid_rule_encountered   \<comment> \<open>\<open>perror("Invalid rule encountered"); return NULL\<close>\<close>
  | Undefined_behaviour        \<comment> \<open>an access outside a buffer, or signed overflow\<close>

text \<open>
  \<open>struct rule\<close>. The flags \<open>intact\<close> and \<open>restem\<close> are C ints tested for being
  non-zero only; the \<open>next\<close> pointer is the tail of the list that holds the rule.
\<close>

record rule =
  intact :: bool
  remove :: int
  restem :: bool
  suffix :: string
  append_str :: string
  id_str :: string

text \<open>\<open>rule_t ** rules\<close>: an array of linked lists, one per letter.\<close>

type_synonym ruleset = "rule list list"

text \<open>The local variables of \<open>StemWord\<close> that its loops update.\<close>

record stem_state =
  st_stem :: string
  st_intact :: bool
  st_restem :: bool
  st_debug :: "string option"

subsection \<open>The C library, in the "C" locale\<close>

definition char_code :: "char \<Rightarrow> int" where
  "char_code c = of_char c"

definition isspace :: "char \<Rightarrow> bool" where
  "isspace c = (char_code c = 32 \<or> (9 \<le> char_code c \<and> char_code c \<le> 13))"

definition isdigit :: "char \<Rightarrow> bool" where
  "isdigit c = (48 \<le> char_code c \<and> char_code c \<le> 57)"

definition isalpha :: "char \<Rightarrow> bool" where
  "isalpha c = ((65 \<le> char_code c \<and> char_code c \<le> 90) \<or> (97 \<le> char_code c \<and> char_code c \<le> 122))"

text \<open>\<open>strchr(s, c)\<close> for a character \<open>c\<close> other than NUL: the tail of \<open>s\<close> from the first \<open>c\<close>.\<close>

fun strchr :: "string \<Rightarrow> char \<Rightarrow> string option" where
  "strchr [] c = None"
| "strchr (x # xs) c = (if x = c then Some (x # xs) else strchr xs c)"

text \<open>\<open>strstr(haystack, needle)\<close>: the tail of the haystack from the first occurrence.\<close>

fun strstr :: "string \<Rightarrow> string \<Rightarrow> string option" where
  "strstr [] needle = (if needle = [] then Some [] else None)"
| "strstr (h # hs) needle =
     (if take (length needle) (h # hs) = needle then Some (h # hs) else strstr hs needle)"

text \<open>\<open>strncpy(dst, src, n); dst[n] = '\0'\<close> and \<open>strncat(dst, src, n)\<close>.\<close>

definition strncpy :: "string \<Rightarrow> nat \<Rightarrow> string" where
  "strncpy src n = take n src"

definition strncat :: "string \<Rightarrow> string \<Rightarrow> nat \<Rightarrow> string" where
  "strncat dst src n = dst @ take n src"

subsection \<open>IsValid\<close>

text \<open>\<open>stem[0]\<close>; for the empty string it is the terminating NUL.\<close>

definition first_char :: "string \<Rightarrow> char" where
  "first_char s = (case s of [] \<Rightarrow> CHR 0x00 | c # _ \<Rightarrow> c)"

definition IsValid :: "string \<Rightarrow> bool" where
  "IsValid stem =
     (if first_char stem = CHR ''a'' \<or> first_char stem = CHR ''e'' \<or> first_char stem = CHR ''i''
         \<or> first_char stem = CHR ''o'' \<or> first_char stem = CHR ''u''
      then length stem \<ge> 2
      else length stem \<ge> 3 \<and>
           (strchr stem (CHR ''a'') \<noteq> None \<or>
            strchr stem (CHR ''e'') \<noteq> None \<or>
            strchr stem (CHR ''i'') \<noteq> None \<or>
            strchr stem (CHR ''o'') \<noteq> None \<or>
            strchr stem (CHR ''u'') \<noteq> None \<or>
            strchr stem (CHR ''y'') \<noteq> None))"

text \<open>The acceptability rule in the words of the specification, for comparison.\<close>

definition is_acceptable_spec :: "string \<Rightarrow> bool" where
  "is_acceptable_spec candidate =
     (if candidate \<noteq> [] \<and> hd candidate \<in> set ''aeiou''
      then length candidate \<ge> 2
      else length candidate \<ge> 3 \<and> (\<exists>c \<in> set candidate. c \<in> set ''aeiouy''))"

subsection \<open>RuleMatches and ApplyRule\<close>

definition RuleMatches :: "rule \<Rightarrow> string \<Rightarrow> bool \<Rightarrow> bool" where
  "RuleMatches rule stem intact_flag =
     (if \<not> intact_flag \<and> intact rule then False
      else if length (suffix rule) > length stem then False
      else if suffix rule \<noteq> drop (length stem - length (suffix rule)) stem then False
      else True)"

text \<open>
  \<open>new_stem\<close> is a buffer of \<open>LONGSTR = 255\<close> bytes, padded with NULs by \<open>strncpy\<close>.
  \<open>new_stem[newlen] = 0\<close> cuts the string when \<open>newlen\<close> is inside it, changes nothing
  when \<open>newlen\<close> is behind its end and inside the buffer (a negative \<open>remove\<close>), and is
  an access outside the buffer beyond index 254.
\<close>

definition ApplyRule :: "rule \<Rightarrow> string \<Rightarrow> error + string" where
  "ApplyRule rule stem =
     (let new_stem = strncpy stem 254 in
      if remove rule \<noteq> 0 then
        (let newlen = int (length new_stem) - remove rule;
             newlen = (if newlen < 0 then 0 else newlen)
         in if newlen > 254 then Inl Undefined_behaviour
            else (let new_stem = take (nat newlen) new_stem
                  in Inr (strncat new_stem (append_str rule) (254 - length new_stem))))
      else Inr (strncat new_stem (append_str rule) (254 - length new_stem)))"

subsection \<open>StemWord\<close>

text \<open>
  \<open>rules[last_letter - 97]\<close> with \<open>last_letter = stem[strlen(stem) - 1]\<close>: defined
  for a non-empty stem whose last character indexes the array.
\<close>

definition bucket_of :: "ruleset \<Rightarrow> string \<Rightarrow> rule list option" where
  "bucket_of rules stem =
     (if stem = [] then None
      else (let idx = char_code (last stem) - 97
            in if 0 \<le> idx \<and> idx < int (length rules) then Some (rules ! nat idx) else None))"

text \<open>
  The \<open>for\<close> loop over one bucket: \<open>continue\<close> goes on with the next rule, \<open>break\<close>
  leaves with the updated variables. \<open>debug\<close> is the caller's buffer, or \<open>None\<close> for
  a null pointer; here the trace is as long as it gets, and the size of the buffer is
  brought in by \<open>StemWord_loop_sized\<close> and \<open>StemWord_sized\<close> below.
\<close>

fun StemWord_scan :: "rule list \<Rightarrow> stem_state \<Rightarrow> error + stem_state" where
  "StemWord_scan [] st = Inr st"
| "StemWord_scan (rule # next) st =
     (if \<not> RuleMatches rule (st_stem st) (st_intact st) then StemWord_scan next st
      else (case ApplyRule rule (st_stem st) of
              Inl e \<Rightarrow> Inl e
            | Inr result \<Rightarrow>
                if \<not> IsValid result then StemWord_scan next st
                else (let stem = strncpy result 254
                      in Inr (st\<lparr>st_stem := stem,
                                 st_intact := False,
                                 st_debug := map_option
                                   (\<lambda>d. d @ '' ='' @ id_str rule @ ''=> '' @ stem) (st_debug st),
                                 st_restem := restem rule\<rparr>))))"

text \<open>The \<open>while (restem)\<close> loop.\<close>

partial_function (option) StemWord_loop :: "ruleset \<Rightarrow> stem_state \<Rightarrow> (error + stem_state) option" where
  "StemWord_loop rules st =
     (if st_restem st then
        (case bucket_of rules (st_stem st) of
           None \<Rightarrow> Some (Inl Undefined_behaviour)
         | Some bucket \<Rightarrow>
             (case StemWord_scan bucket (st\<lparr>st_restem := False\<rparr>) of
                Inl e \<Rightarrow> Some (Inl e)
              | Inr st' \<Rightarrow> StemWord_loop rules st'))
      else Some (Inr st))"

declare StemWord_loop.simps [code]

text \<open>
  \<open>StemWord(word, stem, rules, debug)\<close> returns the contents of \<open>stem\<close> and of
  \<open>debug\<close>.
\<close>

definition StemWord :: "string \<Rightarrow> ruleset \<Rightarrow> string option \<Rightarrow> (error + string \<times> string option) option" where
  "StemWord word rules debug =
     (let debug = map_option (\<lambda>_. []) debug;
          stem = strncpy word 254
      in if \<not> IsValid stem then Some (Inr (stem, debug))
         else (let debug = map_option (\<lambda>_. stem) debug
               in map_option (map_sum (\<lambda>e. e) (\<lambda>st. (st_stem st, st_debug st)))
                    (StemWord_loop rules
                       \<lparr>st_stem = stem, st_intact = True, st_restem = True, st_debug = debug\<rparr>)))"

subsection \<open>StemWord with the size of the trace buffer\<close>

text \<open>
  \<open>debug\<close> points to a buffer of the caller, of \<open>debug_size\<close> bytes (\<open>main\<close> passes
  \<open>char debug[HUGESTR]\<close>, 4095 bytes). \<open>debug[0] = '\0'\<close>, \<open>strcpy\<close> and \<open>strcat\<close>
  write the trace and its terminating NUL there without a check, so a trace of
  \<open>debug_size\<close> characters or more runs past the buffer.
\<close>

definition debug_fits :: "nat \<Rightarrow> string option \<Rightarrow> bool" where
  "debug_fits debug_size debug =
     (case debug of None \<Rightarrow> True | Some trace \<Rightarrow> length trace < debug_size)"

text \<open>
  The \<open>while (restem)\<close> loop with this bound. A pass appends to the trace only for the
  rule that wins, by four calls of \<open>strcat\<close> in a row, and the trace only grows: the four
  calls stay inside the buffer iff the trace fits after the pass.
\<close>

partial_function (option) StemWord_loop_sized ::
    "nat \<Rightarrow> ruleset \<Rightarrow> stem_state \<Rightarrow> (error + stem_state) option" where
  "StemWord_loop_sized debug_size rules st =
     (if st_restem st then
        (case bucket_of rules (st_stem st) of
           None \<Rightarrow> Some (Inl Undefined_behaviour)
         | Some bucket \<Rightarrow>
             (case StemWord_scan bucket (st\<lparr>st_restem := False\<rparr>) of
                Inl e \<Rightarrow> Some (Inl e)
              | Inr st' \<Rightarrow>
                  if \<not> debug_fits debug_size (st_debug st') then Some (Inl Undefined_behaviour)
                  else StemWord_loop_sized debug_size rules st'))
      else Some (Inr st))"

declare StemWord_loop_sized.simps [code]

definition StemWord_sized ::
    "nat \<Rightarrow> string \<Rightarrow> ruleset \<Rightarrow> string option \<Rightarrow> (error + string \<times> string option) option" where
  "StemWord_sized debug_size word rules debug =
     (let debug = map_option (\<lambda>_. []) debug
      in if \<not> debug_fits debug_size debug then Some (Inl Undefined_behaviour)
         else (let stem = strncpy word 254
               in if \<not> IsValid stem then Some (Inr (stem, debug))
                  else (let debug = map_option (\<lambda>_. stem) debug
                        in if \<not> debug_fits debug_size debug then Some (Inl Undefined_behaviour)
                           else map_option (map_sum (\<lambda>e. e) (\<lambda>st. (st_stem st, st_debug st)))
                                  (StemWord_loop_sized debug_size rules
                                     \<lparr>st_stem = stem, st_intact = True, st_restem = True,
                                       st_debug = debug\<rparr>))))"

subsection \<open>Rule tables on which stemming ends\<close>

text \<open>The characters \<open>c\<close> for which \<open>c - 97\<close> is an index of the 26 buckets.\<close>

definition bucket_letter :: "char \<Rightarrow> bool" where
  "bucket_letter c = (0 \<le> char_code c - 97 \<and> char_code c - 97 \<le> 25)"

text \<open>A rule that makes every stem it matches shorter.\<close>

definition shortening :: "rule \<Rightarrow> bool" where
  "shortening r =
     (length (append_str r) < nat (remove r) \<and> length (append_str r) < length (suffix r))"

text \<open>
  A table of 26 buckets whose rules have a remove count that is not negative and append
  letters a to z only, and whose continuing rules are shortening.
\<close>

definition shortening_table :: "ruleset \<Rightarrow> bool" where
  "shortening_table rules =
     (length rules = 26 \<and>
      list_all (list_all (\<lambda>r. 0 \<le> remove r \<and> list_all bucket_letter (append_str r)
                            \<and> (restem r \<longrightarrow> shortening r))) rules)"

text \<open>
  A table of 26 buckets whose rules have a remove count that is not negative and append
  letters a to z only: on a word of letters a to z no pass leaves the table or a buffer.
\<close>

definition proper_table :: "ruleset \<Rightarrow> bool" where
  "proper_table rules =
     (length rules = 26 \<and>
      list_all (list_all (\<lambda>r. 0 \<le> remove r \<and> list_all bucket_letter (append_str r))) rules)"

subsection \<open>Example tables\<close>

text \<open>
  The table of the rule file \<open>ss.\<close>, \<open>sei3y.\<close>, \<open>s1>\<close> (one rule per line): all
  three rules are in the bucket of the letter s, number 18.
\<close>

definition example_bucket :: "rule list" where
  "example_bucket =
     [\<lparr>intact = False, remove = 0, restem = False, suffix = ''ss'', append_str = [],
        id_str = ''(1:ss.)''\<rparr>,
      \<lparr>intact = False, remove = 3, restem = False, suffix = ''ies'', append_str = ''y'',
        id_str = ''(2:sei3y.)''\<rparr>,
      \<lparr>intact = False, remove = 1, restem = True, suffix = ''s'', append_str = [],
        id_str = ''(3:s1>)''\<rparr>]"

definition example_rules :: ruleset where
  "example_rules = (replicate 26 [])[18 := example_bucket]"

text \<open>The table of the rule file \<open>a1a>\<close>: its rule replaces a final a by an a and continues.\<close>

definition looping_rules :: ruleset where
  "looping_rules =
     (replicate 26 [])
       [0 := [\<lparr>intact = False, remove = 1, restem = True, suffix = ''a'', append_str = ''a'',
               id_str = ''(1:a1a>)''\<rparr>]]"

text \<open>
  The table of the rule file \<open>i1y>\<close>, \<open>cn1t>\<close>: two continuing rules that keep the
  length of the stem, in the buckets of i (number 8) and of c (number 2). A stem that ends
  with i or c counts one more than a stem of the same length that does not.
\<close>

definition keeping_rules :: ruleset where
  "keeping_rules =
     (replicate 26 [])
       [8 := [\<lparr>intact = False, remove = 1, restem = True, suffix = ''i'', append_str = ''y'',
               id_str = ''(1:i1y>)''\<rparr>],
        2 := [\<lparr>intact = False, remove = 1, restem = True, suffix = ''nc'', append_str = ''t'',
               id_str = ''(2:cn1t>)''\<rparr>]]"

definition keeping_measure :: "string \<Rightarrow> nat" where
  "keeping_measure s =
     2 * length s + (if char_code (last s) = 105 \<or> char_code (last s) = 99 then 1 else 0)"

subsection \<open>Rule tables indexed by the last letter of the suffix\<close>

text \<open>
  A rule that belongs to bucket \<open>i\<close>: its suffix is a non-empty run of letters that
  ends with letter number \<open>i\<close> of a to z.
\<close>

definition rule_in_bucket :: "nat \<Rightarrow> rule \<Rightarrow> bool" where
  "rule_in_bucket i r =
     (suffix r \<noteq> [] \<and> list_all isalpha (suffix r) \<and> char_code (last (suffix r)) - 97 = int i)"

definition well_bucketed :: "ruleset \<Rightarrow> bool" where
  "well_bucketed rules =
     (length rules = 26 \<and> list_all (\<lambda>i. list_all (rule_in_bucket i) (rules ! i)) [0..<26])"

subsection \<open>Reading the rule file\<close>

text \<open>
  The stream behind \<open>rulefile\<close> is the list of the bytes not read yet. \<open>fgetc\<close> returns
  the next byte and the rest; at the end of the file it returns \<open>EOF = -1\<close> again and
  again, which the program stores in \<open>char file_ch\<close>, where it is the byte \<open>0xFF\<close>.
  The classification functions are false there (and on every byte from \<open>0x80\<close>).
\<close>

definition fgetc :: "string \<Rightarrow> char \<times> string" where
  "fgetc s = (case s of [] \<Rightarrow> (CHR 0xFF, []) | c # cs \<Rightarrow> (c, cs))"

text \<open>
  \<open>while (isalpha(file_ch)) { buf[str_idx++] = file_ch; rule->id[id_idx++] = file_ch;
  file_ch = fgetc(rulefile); }\<close>: the characters stored, the character that ended the
  loop and the stream behind it. The bounds of the buffers are checked by the caller.
\<close>

function read_alpha :: "char \<Rightarrow> string \<Rightarrow> string \<times> char \<times> string" where
  "read_alpha file_ch s =
     (if isalpha file_ch
      then (case fgetc s of (c, s') \<Rightarrow>
              (case read_alpha c s' of (run, r) \<Rightarrow> (file_ch # run, r)))
      else ([], file_ch, s))"
  by pat_completeness auto
termination
  by (relation "measure (\<lambda>(ch, s). length s + (if isalpha ch then 1 else 0))")
     (auto simp: fgetc_def isalpha_def char_code_def split: list.splits)

function read_digit :: "char \<Rightarrow> string \<Rightarrow> string \<times> char \<times> string" where
  "read_digit file_ch s =
     (if isdigit file_ch
      then (case fgetc s of (c, s') \<Rightarrow>
              (case read_digit c s' of (run, r) \<Rightarrow> (file_ch # run, r)))
      else ([], file_ch, s))"
  by pat_completeness auto
termination
  by (relation "measure (\<lambda>(ch, s). length s + (if isdigit ch then 1 else 0))")
     (auto simp: fgetc_def isdigit_def char_code_def split: list.splits)

declare read_alpha.simps [simp del] read_digit.simps [simp del]

text \<open>
  \<open>while (file_ch && file_ch != '\n') file_ch = fgetc(rulefile);\<close> returns the stream
  behind the newline (or NUL) it stops at. At the end of the file \<open>file_ch\<close> stays
  \<open>(char)EOF\<close> and the loop does not end.
\<close>

partial_function (option) skip_line :: "char \<Rightarrow> string \<Rightarrow> string option" where
  "skip_line file_ch s =
     (if file_ch \<noteq> CHR 0x00 \<and> file_ch \<noteq> CHR 0x0A
      then (case fgetc s of (c, s') \<Rightarrow> skip_line c s')
      else Some s)"

declare skip_line.simps [code]

subsection \<open>ReverseString\<close>

function ReverseString_loop :: "int \<Rightarrow> int \<Rightarrow> int \<Rightarrow> string \<Rightarrow> string" where
  "ReverseString_loop i half last_idx str =
     (if i < half
      then ReverseString_loop (i + 1) half last_idx
             ((str[nat (last_idx - i) := str ! nat i])[nat i := str ! nat (last_idx - i)])
      else str)"
  by pat_completeness auto
termination
  by (relation "measure (\<lambda>(i, half, last_idx, str). nat (half - i))") auto

declare ReverseString_loop.simps [simp del]

definition ReverseString :: "string \<Rightarrow> string" where
  "ReverseString str =
     (let last_idx = int (length str) - 1;
          half = (last_idx + 1) div 2
      in ReverseString_loop 0 half last_idx str)"

subsection \<open>LoadRules\<close>

text \<open>\<open>sprintf(buf, "%d", n)\<close> for \<open>n \<ge> 0\<close>, and \<open>atoi\<close> on a run of digits.\<close>

definition digit_char :: "nat \<Rightarrow> char" where
  "digit_char d = ''0123456789'' ! d"

function dec :: "nat \<Rightarrow> string" where
  "dec n = (if n < 10 then [digit_char n] else dec (n div 10) @ [digit_char (n mod 10)])"
  by pat_completeness auto
termination
  by (relation "measure (\<lambda>n. n)") auto

declare dec.simps [simp del]

definition atoi :: "string \<Rightarrow> int" where
  "atoi digits = foldl (\<lambda>n d. 10 * n + (char_code d - 48)) 0 digits"

text \<open>
  One rule of the file, from \<open>rule = calloc(1, sizeof(rule_t))\<close> to the assembly of
  \<open>rule->id\<close>: the rule, the terminator in \<open>file_ch\<close> and the stream behind it.
  \<open>id\<close> collects every character of the rule, so it is the first buffer to overflow:
  a write at \<open>id[63]\<close> or beyond is outside it, and its final NUL needs \<open>id_idx \<le> 62\<close>.
  \<open>atoi\<close> of a number above \<open>INT_MAX\<close> is undefined.
\<close>

definition LoadRules_entry :: "int \<Rightarrow> char \<Rightarrow> string \<Rightarrow> error + rule \<times> char \<times> string" where
  "LoadRules_entry line file_ch s =
     (let id0 = ''('' @ dec (nat line) @ '':'' in
      case read_alpha file_ch s of (sfx, file_ch, s) \<Rightarrow>
      let id1 = id0 @ sfx in
      if length id1 > 63 then Inl Undefined_behaviour else
      case (if file_ch = CHR ''*'' then (True, fgetc s) else (False, file_ch, s))
        of (star, file_ch, s) \<Rightarrow>
      let id2 = (if star then id1 @ ''*'' else id1) in
      if length id2 > 63 then Inl Undefined_behaviour else
      case read_digit file_ch s of (tmp_str, file_ch, s) \<Rightarrow>
      let id3 = id2 @ tmp_str in
      if length id3 > 63 then Inl Undefined_behaviour else
      if tmp_str \<noteq> [] \<and> atoi tmp_str > 2147483647 then Inl Undefined_behaviour else
      case read_alpha file_ch s of (app, file_ch, s) \<Rightarrow>
      let id4 = id3 @ app in
      if length id4 > 63 then Inl Undefined_behaviour else
      if file_ch \<noteq> CHR ''>'' \<and> file_ch \<noteq> CHR ''.'' then Inl Invalid_rule_encountered else
      if length id4 + 2 > 62 then Inl Undefined_behaviour else
      Inr (\<lparr>intact = star,
            remove = (if tmp_str \<noteq> [] then atoi tmp_str else 0),
            restem = (file_ch = CHR ''>''),
            suffix = ReverseString sfx,
            append_str = app,
            id_str = id4 @ [file_ch] @ '')''\<rparr>, file_ch, s))"

text \<open>Adding the rule at the end of the list \<open>rules[rule_idx]\<close>.\<close>

definition add_rule :: "ruleset \<Rightarrow> nat \<Rightarrow> rule \<Rightarrow> ruleset" where
  "add_rule rules rule_idx rule = rules[rule_idx := rules ! rule_idx @ [rule]]"

text \<open>
  The \<open>while (file_ch = fgetc(rulefile))\<close> loop: it ends at a NUL byte, not at the end
  of the file. \<open>line++\<close> at \<open>INT_MAX\<close> is a signed overflow.
\<close>

partial_function (option) LoadRules_loop :: "string \<Rightarrow> int \<Rightarrow> ruleset \<Rightarrow> (error + ruleset) option" where
  "LoadRules_loop s line rules =
     (case fgetc s of (file_ch, s) \<Rightarrow>
      if file_ch = CHR 0x00 then Some (Inr rules)
      else if isspace file_ch then LoadRules_loop s line rules
      else if line = 2147483647 then Some (Inl Undefined_behaviour)
      else (let line = line + 1;
                rule_idx = char_code file_ch - 97
            in if rule_idx < 0 \<or> rule_idx > 25 then Some (Inl Invalid_rule_encountered)
               else (case LoadRules_entry line file_ch s of
                       Inl e \<Rightarrow> Some (Inl e)
                     | Inr (rule, file_ch, s) \<Rightarrow>
                         if strstr (id_str rule) '':end0.)'' \<noteq> None then Some (Inr rules)
                         else (case skip_line file_ch s of
                                 None \<Rightarrow> None
                               | Some s \<Rightarrow>
                                   LoadRules_loop s line (add_rule rules (nat rule_idx) rule)))))"

declare LoadRules_loop.simps [code]

text \<open>
  \<open>LoadRules(rulepath)\<close>; the argument is what \<open>fopen\<close> finds: \<open>None\<close> when the file
  cannot be opened, the bytes of the file otherwise.
\<close>

definition LoadRules :: "string option \<Rightarrow> (error + ruleset) option" where
  "LoadRules rulefile =
     (case rulefile of
        None \<Rightarrow> Some (Inl Cannot_open_rule_file)
      | Some s \<Rightarrow> LoadRules_loop s 0 (replicate 26 []))"

section \<open>Properties of the stemming engine\<close>

subsection \<open>The acceptability predicate\<close>

lemma strchr_iff: "strchr s c \<noteq> None \<longleftrightarrow> c \<in> set s"
  by (induction s) auto

lemma IsValid_set:
  "IsValid s =
     (s \<noteq> [] \<and> (if hd s \<in> set ''aeiou'' then 2 \<le> length s
                  else 3 \<le> length s \<and> set s \<inter> set ''aeiouy'' \<noteq> {}))"
proof (cases s)
  case Nil
  then show ?thesis
    by (simp add: IsValid_def first_char_def)
next
  case (Cons c cs)
  then show ?thesis
    unfolding IsValid_def strchr_iff by (auto simp: first_char_def)
qed

lemma IsValid_nonempty: "IsValid stem \<Longrightarrow> stem \<noteq> []"
  by (simp add: IsValid_set)

lemma IsValid_take:
  assumes "\<not> IsValid w"
  shows "\<not> IsValid (take 254 w)"
proof (cases "length w \<le> 254")
  case True
  with assms show ?thesis by simp
next
  case False
  then obtain c cs where w: "w = c # cs"
    by (cases w) auto
  from False assms w have "hd w \<notin> set ''aeiou''" "set w \<inter> set ''aeiouy'' = {}"
    by (auto simp: IsValid_set split: if_splits)
  moreover have "set (take 254 w) \<subseteq> set w"
    by (rule set_take_subset)
  moreover have "hd (take 254 w) = hd w"
    using w by simp
  ultimately show ?thesis
    unfolding IsValid_set [of "take 254 w"] by auto
qed

lemma IsValid_consonants: "\<not> IsValid (replicate n (CHR ''b''))"
  unfolding IsValid_set by (cases n) auto

text \<open>
  C2. \<open>IsValid\<close> is the acceptability predicate of the specification: a candidate that
  starts with one of a, e, i, o, u is acceptable iff its length is at least 2; any other
  candidate iff its length is at least 3 and one of a, e, i, o, u, y occurs in it. Being a
  HOL function of its argument alone, it is pure.
\<close>

theorem IsValid_is_acceptable: "IsValid candidate = is_acceptable_spec candidate"
  unfolding IsValid_set is_acceptable_spec_def by (cases candidate) auto

theorem IsValid_is_acceptable_witness:
  "IsValid ''pony'' \<and> IsValid ''ox'' \<and> \<not> IsValid ''by'' \<and> \<not> IsValid ''a'' \<and> \<not> IsValid ''brr''"
  unfolding IsValid_is_acceptable [of "''pony''"] IsValid_is_acceptable [of "''ox''"]
    IsValid_is_acceptable [of "''by''"] IsValid_is_acceptable [of "''a''"]
    IsValid_is_acceptable [of "''brr''"]
  by (simp add: is_acceptable_spec_def)

subsection \<open>Applying a rule\<close>

lemma take_shorter_append:
  "length xs \<le> n \<Longrightarrow> xs @ take (n - length xs) ys = take n (xs @ ys)"
  by simp

lemma ApplyRule_cut:
  "ApplyRule rule stem =
     (if remove rule \<noteq> 0 \<and> int (length (take 254 stem)) - remove rule > 254
      then Inl Undefined_behaviour
      else Inr (take 254 (take (nat (int (length (take 254 stem)) - remove rule)) (take 254 stem)
                  @ append_str rule)))"
proof -
  define cur where "cur = take 254 stem"
  have len: "length cur \<le> 254"
    by (simp add: cur_def)
  have cut: "length (take m cur) \<le> 254" for m
    using len by simp
  show ?thesis
    unfolding ApplyRule_def Let_def strncpy_def strncat_def cur_def [symmetric]
    using take_shorter_append [OF cut, of _ "append_str rule"]
      take_shorter_append [OF len, of "append_str rule"]
    by (auto simp del: take_append length_take)
qed

lemma ApplyRule_length:
  assumes "ApplyRule rule stem = Inr result"
  shows "length result \<le> 254"
proof -
  from assms obtain xs where "result = take 254 xs"
    unfolding ApplyRule_cut by (auto split: if_splits simp del: take_append)
  then show ?thesis
    by simp
qed

lemma ApplyRule_nonneg:
  assumes "0 \<le> remove rule"
  shows "ApplyRule rule stem =
    Inr (take 254 (take (length (take 254 stem) - nat (remove rule)) (take 254 stem)
           @ append_str rule))"
proof -
  have "nat (int (length (take 254 stem)) - remove rule)
          = length (take 254 stem) - nat (remove rule)"
    using assms by linarith
  moreover have "\<not> int (length (take 254 stem)) - remove rule > 254"
    using assms by simp
  ultimately show ?thesis
    unfolding ApplyRule_cut by presburger
qed

text \<open>
  C4, as amended. For a rule whose remove count is not negative, the candidate is the
  current stem (cut to the 254 characters of the buffer) without its last
  \<open>min remove (length current)\<close> characters, followed by the append string, the whole cut
  to 254 characters; when the current stem and this result fit into 254 characters
  nothing is cut. The remove count is clamped to the length of the stem.
\<close>

theorem ApplyRule_candidate:
  assumes "0 \<le> remove rule"
  shows "ApplyRule rule current =
           Inr (take 254
                 (take (length (take 254 current)
                          - min (nat (remove rule)) (length (take 254 current)))
                    (take 254 current) @ append_str rule))
       \<and> (length current \<le> 254
            \<and> length current - min (nat (remove rule)) (length current)
                + length (append_str rule) \<le> 254 \<longrightarrow>
           ApplyRule rule current =
             Inr (take (length current - min (nat (remove rule)) (length current)) current
                  @ append_str rule))"
proof -
  have clamp: "n - min k n = n - k" for n k :: nat
    by simp
  show ?thesis
    unfolding ApplyRule_nonneg [OF assms] clamp by auto
qed

theorem ApplyRule_candidate_witness:
  "ApplyRule (example_bucket ! 1) ''ponies'' = Inr ''pony''
   \<and> ApplyRule \<lparr>intact = False, remove = 9, restem = False, suffix = ''b'', append_str = ''xyz'',
                 id_str = ''(1:b9xyz.)''\<rparr> ''ab'' = Inr ''xyz''"
  using ApplyRule_candidate [of "example_bucket ! 1" "''ponies''"]
    ApplyRule_candidate [of "\<lparr>intact = False, remove = 9, restem = False, suffix = ''b'',
      append_str = ''xyz'', id_str = ''(1:b9xyz.)''\<rparr>" "''ab''"]
  by (simp add: example_bucket_def)

text \<open>
  The claim as stated fails where the buffer is full: on a stem of 254 characters, a rule
  that removes nothing and appends s yields the stem itself.
\<close>

theorem ApplyRule_truncates:
  "ApplyRule \<lparr>intact = False, remove = 0, restem = False, suffix = ''a'', append_str = ''s'',
               id_str = ''(1:a0s.)''\<rparr> (replicate 254 (CHR ''a''))
     = Inr (replicate 254 (CHR ''a''))
   \<and> replicate 254 (CHR ''a'')
     \<noteq> take (length (replicate 254 (CHR ''a''))
               - min (nat 0) (length (replicate 254 (CHR ''a'')))) (replicate 254 (CHR ''a''))
       @ ''s''"
  unfolding ApplyRule_cut by simp

subsection \<open>One pass over a bucket\<close>

lemmas stem_eval = RuleMatches_def ApplyRule_def strncpy_def strncat_def IsValid_def
  first_char_def bucket_of_def char_code_def Let_def

lemma scan_skip:
  assumes "\<forall>r \<in> set before. \<not> RuleMatches r (st_stem st) (st_intact st)
             \<or> (\<exists>c. ApplyRule r (st_stem st) = Inr c \<and> \<not> IsValid c)"
  shows "StemWord_scan (before @ rest) st = StemWord_scan rest st"
  using assms by (induction before) auto

lemma scan_win:
  assumes "RuleMatches rule (st_stem st) (st_intact st)"
    and "ApplyRule rule (st_stem st) = Inr candidate" and "IsValid candidate"
  shows "StemWord_scan (rule # rest) st =
           Inr (st\<lparr>st_stem := candidate, st_intact := False,
                   st_debug := map_option (\<lambda>d. d @ '' ='' @ id_str rule @ ''=> '' @ candidate)
                                 (st_debug st),
                   st_restem := restem rule\<rparr>)"
  using assms ApplyRule_length [OF assms(2)] by (simp add: strncpy_def)

lemma scan_cases:
  assumes "StemWord_scan bucket st = Inr st'"
  shows "st' = st \<or> (\<exists>rule \<in> set bucket. \<exists>candidate.
            RuleMatches rule (st_stem st) (st_intact st)
          \<and> ApplyRule rule (st_stem st) = Inr candidate \<and> IsValid candidate
          \<and> st' = st\<lparr>st_stem := candidate, st_intact := False,
                   st_debug := map_option (\<lambda>d. d @ '' ='' @ id_str rule @ ''=> '' @ candidate)
                                 (st_debug st),
                   st_restem := restem rule\<rparr>)"
  using assms
proof (induction bucket)
  case Nil
  then show ?case by simp
next
  case (Cons rule rest)
  show ?case
  proof (cases "RuleMatches rule (st_stem st) (st_intact st)
                  \<and> (\<exists>c. ApplyRule rule (st_stem st) = Inr c \<and> IsValid c)")
    case True
    then obtain c where c: "RuleMatches rule (st_stem st) (st_intact st)"
        "ApplyRule rule (st_stem st) = Inr c" "IsValid c"
      by blast
    from scan_win [OF c] Cons.prems c show ?thesis
      by auto
  next
    case False
    with Cons.prems have "StemWord_scan rest st = Inr st'"
      by (auto split: sum.splits if_splits)
    from Cons.IH [OF this] show ?thesis
      by auto
  qed
qed

lemma scan_IsValid:
  assumes "StemWord_scan bucket st = Inr st'" and "IsValid (st_stem st)"
  shows "IsValid (st_stem st')"
  using scan_cases [OF assms(1)] assms(2) by auto

lemma example_bucket_of: "bucket_of example_rules ''ponies'' = Some example_bucket"
  by (simp add: bucket_of_def example_rules_def char_code_def)

text \<open>
  C1. In a pass of the stemming loop over the bucket of the current stem, the rules in
  front of the first rule that matches and has an acceptable candidate are skipped, and
  that rule wins whatever follows it in the bucket: the stem becomes its candidate,
  \<open>intact\<close> becomes false, \<open>restem\<close> becomes the rule's \<open>restem\<close> (its label and the new
  stem go to the trace), and the loop goes on with this state when the rule continues and
  returns it otherwise.
\<close>

theorem first_match_wins:
  assumes "st_restem st"
    and "bucket_of rules (st_stem st) = Some (before @ rule # after)"
    and "\<forall>r \<in> set before. \<not> RuleMatches r (st_stem st) (st_intact st)
             \<or> (\<exists>c. ApplyRule r (st_stem st) = Inr c \<and> \<not> IsValid c)"
    and "RuleMatches rule (st_stem st) (st_intact st)"
    and "ApplyRule rule (st_stem st) = Inr candidate"
    and "IsValid candidate"
  shows "(let st' = st\<lparr>st_stem := candidate, st_intact := False,
                   st_debug := map_option (\<lambda>d. d @ '' ='' @ id_str rule @ ''=> '' @ candidate)
                                 (st_debug st),
                   st_restem := restem rule\<rparr>
          in StemWord_scan (before @ rule # after) (st\<lparr>st_restem := False\<rparr>) = Inr st'
           \<and> StemWord_loop rules st
               = (if restem rule then StemWord_loop rules st' else Some (Inr st')))"
proof -
  define st' where "st' = st\<lparr>st_stem := candidate, st_intact := False,
                   st_debug := map_option (\<lambda>d. d @ '' ='' @ id_str rule @ ''=> '' @ candidate)
                                 (st_debug st),
                   st_restem := restem rule\<rparr>"
  let ?st = "st\<lparr>st_restem := False\<rparr>"
  have "StemWord_scan (before @ rule # after) ?st = StemWord_scan (rule # after) ?st"
    by (rule scan_skip) (use assms(3) in simp)
  also have "\<dots> = Inr st'"
    unfolding st'_def using scan_win [of rule ?st candidate after] assms(4-6) by simp
  finally have scan: "StemWord_scan (before @ rule # after) ?st = Inr st'" .
  have "StemWord_loop rules st = StemWord_loop rules st'"
    using assms(1,2) scan by (subst StemWord_loop.simps) simp
  moreover have "\<not> restem rule \<Longrightarrow> StemWord_loop rules st' = Some (Inr st')"
    by (subst StemWord_loop.simps) (simp add: st'_def)
  ultimately show ?thesis
    using scan unfolding st'_def [symmetric] Let_def by simp
qed

theorem first_match_wins_witness:
  "StemWord_scan example_bucket
      \<lparr>st_stem = ''ponies'', st_intact = True, st_restem = False, st_debug = Some ''ponies''\<rparr>
     = Inr \<lparr>st_stem = ''pony'', st_intact = False, st_restem = False,
             st_debug = Some ''ponies =(2:sei3y.)=> pony''\<rparr>
   \<and> StemWord_loop example_rules
      \<lparr>st_stem = ''ponies'', st_intact = True, st_restem = True, st_debug = Some ''ponies''\<rparr>
     = Some (Inr \<lparr>st_stem = ''pony'', st_intact = False, st_restem = False,
                   st_debug = Some ''ponies =(2:sei3y.)=> pony''\<rparr>)"
  using first_match_wins
    [of "\<lparr>st_stem = ''ponies'', st_intact = True, st_restem = True, st_debug = Some ''ponies''\<rparr>"
      example_rules "[example_bucket ! 0]" "example_bucket ! 1" "[example_bucket ! 2]" "''pony''"]
  by (simp add: example_bucket_of) (simp add: example_bucket_def stem_eval)

subsection \<open>The whole call\<close>

lemma StemWord_unfold:
  "StemWord word rules debug =
     (if \<not> IsValid (take 254 word)
      then Some (Inr (take 254 word, map_option (\<lambda>_. []) debug))
      else map_option (map_sum (\<lambda>e. e) (\<lambda>st. (st_stem st, st_debug st)))
             (StemWord_loop rules
                \<lparr>st_stem = take 254 word, st_intact = True, st_restem = True,
                  st_debug = map_option (\<lambda>_. take 254 word) debug\<rparr>))"
  by (simp add: StemWord_def Let_def strncpy_def option.map_comp comp_def)

text \<open>
  C3, as amended. For a word that is not acceptable, whatever the rule table, the call
  returns the first 254 characters of the word (the word itself when it has at most 254)
  and, when a trace is requested, the empty trace; the table is not consulted.
\<close>

theorem unacceptable_word_returned:
  assumes "\<not> IsValid w"
  shows "StemWord w rules debug = Some (Inr (take 254 w, map_option (\<lambda>_. []) debug))
       \<and> (length w \<le> 254 \<longrightarrow>
            StemWord w rules debug = Some (Inr (w, map_option (\<lambda>_. []) debug)))"
proof -
  have "StemWord w rules debug = Some (Inr (take 254 w, map_option (\<lambda>_. []) debug))"
    using IsValid_take [OF assms] by (simp add: StemWord_unfold)
  then show ?thesis
    by simp
qed

theorem unacceptable_word_returned_witness:
  "StemWord ''by'' example_rules (Some ''old'') = Some (Inr (''by'', Some []))"
  using unacceptable_word_returned [of "''by''" example_rules "Some ''old''"]
  by (simp add: IsValid_def first_char_def)

text \<open>
  The claim as stated fails for a word longer than the buffer: 255 letters b are not
  acceptable, and the call returns 254 of them.
\<close>

theorem unacceptable_word_truncated:
  "\<not> IsValid (replicate 255 (CHR ''b''))
   \<and> StemWord (replicate 255 (CHR ''b'')) example_rules None
       = Some (Inr (replicate 254 (CHR ''b''), None))
   \<and> replicate 254 (CHR ''b'') \<noteq> replicate 255 (CHR ''b'')"
proof -
  have "length (replicate 254 (CHR ''b'')) \<noteq> length (replicate 255 (CHR ''b''))"
    by simp
  then have "replicate 254 (CHR ''b'') \<noteq> replicate 255 (CHR ''b'')"
    by metis
  then show ?thesis
    by (simp add: StemWord_unfold IsValid_consonants)
qed

subsection \<open>Acceptability is an invariant of the loop\<close>

lemma loop_IsValid:
  assumes "StemWord_loop rules st = Some r"
  shows "IsValid (st_stem st) \<longrightarrow> (\<forall>st'. r = Inr st' \<longrightarrow> IsValid (st_stem st'))"
proof (rule StemWord_loop.raw_induct [OF _ assms,
    where P = "\<lambda>rules st r.
      IsValid (st_stem st) \<longrightarrow> (\<forall>st'. r = Inr st' \<longrightarrow> IsValid (st_stem st'))"])
  fix loop rules st r
  assume IH: "\<And>rules st y. loop rules st = Some y \<Longrightarrow>
                IsValid (st_stem st) \<longrightarrow> (\<forall>st'. y = Inr st' \<longrightarrow> IsValid (st_stem st'))"
    and body: "(if st_restem st then
        (case bucket_of rules (st_stem st) of
           None \<Rightarrow> Some (Inl Undefined_behaviour)
         | Some bucket \<Rightarrow>
             (case StemWord_scan bucket (st\<lparr>st_restem := False\<rparr>) of
                Inl e \<Rightarrow> Some (Inl e)
              | Inr st' \<Rightarrow> loop rules st'))
      else Some (Inr st)) = Some r"
  show "IsValid (st_stem st) \<longrightarrow> (\<forall>st'. r = Inr st' \<longrightarrow> IsValid (st_stem st'))"
  proof (intro impI allI)
    fix st'
    assume valid: "IsValid (st_stem st)" and r: "r = Inr st'"
    show "IsValid (st_stem st')"
    proof (cases "st_restem st")
      case False
      with body r valid show ?thesis by simp
    next
      case True
      with body r obtain bucket st1
        where s: "StemWord_scan bucket (st\<lparr>st_restem := False\<rparr>) = Inr st1"
          and l: "loop rules st1 = Some r"
        by (auto split: option.splits sum.splits)
      from scan_IsValid [OF s] valid have "IsValid (st_stem st1)"
        by simp
      with IH [OF l] r show ?thesis
        by simp
    qed
  qed
qed

lemma example_run: "StemWord ''ponies'' example_rules None = Some (Inr (''pony'', None))"
  unfolding StemWord_unfold
  apply (simp add: IsValid_def first_char_def)
  apply (subst StemWord_loop.simps)
  apply (simp add: example_bucket_of)
  apply (simp add: example_bucket_def stem_eval)
  apply (subst StemWord_loop.simps)
  apply simp
  done

text \<open>
  C10, as amended. When the first 254 characters of the word are acceptable (so for every
  acceptable word of at most 254 characters), acceptability is an invariant of the loop:
  a pass over any bucket takes an acceptable stem to an acceptable stem, since a candidate
  replaces the stem only after \<open>IsValid\<close> has accepted it, and the stem that the call
  returns is acceptable, hence not empty.
\<close>

theorem acceptability_invariant:
  assumes "IsValid (take 254 word)"
  shows "(\<forall>bucket st st'. IsValid (st_stem st) \<and> StemWord_scan bucket st = Inr st'
            \<longrightarrow> IsValid (st_stem st'))
    \<and> (\<forall>stem trace. StemWord word rules debug = Some (Inr (stem, trace))
            \<longrightarrow> IsValid stem \<and> stem \<noteq> [])"
proof (intro conjI allI impI)
  fix bucket st st'
  assume "IsValid (st_stem st) \<and> StemWord_scan bucket st = Inr st'"
  then show "IsValid (st_stem st')"
    using scan_IsValid by blast
next
  fix stem trace
  assume res: "StemWord word rules debug = Some (Inr (stem, trace))"
  define st0 where "st0 = \<lparr>st_stem = take 254 word, st_intact = True, st_restem = True,
                st_debug = map_option (\<lambda>_. take 254 word) debug\<rparr>"
  from res assms obtain r where l: "StemWord_loop rules st0 = Some r"
    and r: "map_sum (\<lambda>e. e) (\<lambda>st. (st_stem st, st_debug st)) r = Inr (stem, trace)"
    unfolding StemWord_unfold st0_def by auto
  from r obtain st' where st': "r = Inr st'" "st_stem st' = stem"
    by (cases r) auto
  from loop_IsValid [OF l] assms st' have "IsValid stem"
    by (simp add: st0_def)
  then show "IsValid stem" "stem \<noteq> []"
    using IsValid_nonempty by auto
qed

theorem acceptability_invariant_witness:
  "StemWord ''ponies'' example_rules None = Some (Inr (''pony'', None))
   \<and> IsValid ''pony'' \<and> ''pony'' \<noteq> []
   \<and> StemWord_scan example_bucket
        \<lparr>st_stem = ''horses'', st_intact = True, st_restem = False, st_debug = None\<rparr>
       = Inr \<lparr>st_stem = ''horse'', st_intact = False, st_restem = True, st_debug = None\<rparr>
   \<and> IsValid ''horse''"
proof -
  have valid: "IsValid (take 254 ''ponies'')"
    by (simp add: IsValid_def first_char_def)
  have scan: "StemWord_scan example_bucket
        \<lparr>st_stem = ''horses'', st_intact = True, st_restem = False, st_debug = None\<rparr>
       = Inr \<lparr>st_stem = ''horse'', st_intact = False, st_restem = True, st_debug = None\<rparr>"
    by (simp add: example_bucket_def stem_eval)
  have "IsValid (st_stem
          \<lparr>st_stem = ''horses'', st_intact = True, st_restem = False, st_debug = None\<rparr>)"
    by (simp add: IsValid_def first_char_def)
  with acceptability_invariant [OF valid, of example_rules None] scan
  have "IsValid (st_stem
          \<lparr>st_stem = ''horse'', st_intact = False, st_restem = True, st_debug = None\<rparr>)"
    by blast
  with acceptability_invariant [OF valid, of example_rules None] example_run scan
  show ?thesis
    by simp
qed

text \<open>
  The claim as stated fails for a word longer than the buffer: 254 letters b followed by
  an a are acceptable, but the call cuts the a off and returns the 254 letters b, which
  are not.
\<close>

theorem long_word_stem_unacceptable:
  "IsValid (replicate 254 (CHR ''b'') @ ''a'')
   \<and> StemWord (replicate 254 (CHR ''b'') @ ''a'') example_rules None
       = Some (Inr (replicate 254 (CHR ''b''), None))
   \<and> \<not> IsValid (replicate 254 (CHR ''b''))"
proof -
  have "IsValid (replicate 254 (CHR ''b'') @ ''a'')"
    unfolding IsValid_set by simp
  moreover have "StemWord (replicate 254 (CHR ''b'') @ ''a'') example_rules None
       = Some (Inr (replicate 254 (CHR ''b''), None))"
    by (simp add: StemWord_unfold IsValid_consonants)
  ultimately show ?thesis
    by (simp add: IsValid_consonants)
qed

section \<open>Properties of the rule compiler\<close>

subsection \<open>The reading loops\<close>

lemma EOF_class [simp]: "\<not> isalpha (CHR 0xFF)" "\<not> isdigit (CHR 0xFF)" "\<not> isspace (CHR 0xFF)"
  by (simp_all add: isalpha_def isdigit_def isspace_def char_code_def)

lemma read_alpha_run:
  "read_alpha file_ch s =
     (takeWhile isalpha (file_ch # s), fgetc (dropWhile isalpha (file_ch # s)))"
proof (induction s arbitrary: file_ch)
  case Nil
  show ?case
    by (subst read_alpha.simps, subst read_alpha.simps) (simp add: fgetc_def)
next
  case (Cons c cs)
  show ?case
    by (subst read_alpha.simps) (simp add: fgetc_def Cons.IH)
qed

lemma read_digit_run:
  "read_digit file_ch s =
     (takeWhile isdigit (file_ch # s), fgetc (dropWhile isdigit (file_ch # s)))"
proof (induction s arbitrary: file_ch)
  case Nil
  show ?case
    by (subst read_digit.simps, subst read_digit.simps) (simp add: fgetc_def)
next
  case (Cons c cs)
  show ?case
    by (subst read_digit.simps) (simp add: fgetc_def Cons.IH)
qed

lemma read_alpha_split:
  assumes "list_all isalpha xs" and "\<not> isalpha y"
  shows "read_alpha (hd (xs @ y # ys)) (tl (xs @ y # ys)) = (xs, y, ys)"
proof -
  have "takeWhile isalpha (xs @ y # ys) = xs" "dropWhile isalpha (xs @ y # ys) = y # ys"
    using assms by (simp_all add: list_all_iff takeWhile_append2 dropWhile_append2)
  then show ?thesis
    unfolding read_alpha_run by (simp add: fgetc_def)
qed

lemma read_digit_split:
  assumes "list_all isdigit xs" and "\<not> isdigit y"
  shows "read_digit (hd (xs @ y # ys)) (tl (xs @ y # ys)) = (xs, y, ys)"
proof -
  have "takeWhile isdigit (xs @ y # ys) = xs" "dropWhile isdigit (xs @ y # ys) = y # ys"
    using assms by (simp_all add: list_all_iff takeWhile_append2 dropWhile_append2)
  then show ?thesis
    unfolding read_digit_run by (simp add: fgetc_def)
qed

lemma skip_line_stop:
  "file_ch = CHR 0x00 \<or> file_ch = CHR 0x0A \<Longrightarrow> skip_line file_ch s = Some s"
  by (subst skip_line.simps) auto

lemma skip_line_find:
  assumes "t = CHR 0x00 \<or> t = CHR 0x0A"
    and "\<forall>c \<in> set comment. c \<noteq> CHR 0x00 \<and> c \<noteq> CHR 0x0A"
    and "file_ch \<noteq> CHR 0x00 \<and> file_ch \<noteq> CHR 0x0A"
  shows "skip_line file_ch (comment @ t # rest) = Some rest"
  using assms(2,3)
proof (induction comment arbitrary: file_ch)
  case Nil
  then show ?case
    using skip_line_stop [OF assms(1), of rest]
    by (subst skip_line.simps) (simp add: fgetc_def)
next
  case (Cons c cs)
  then show ?case
    by (subst skip_line.simps) (simp add: fgetc_def)
qed

subsection \<open>Character classes\<close>

lemma digit_not_alpha: "isdigit c \<Longrightarrow> \<not> isalpha c"
  by (auto simp: isdigit_def isalpha_def)

lemma alpha_not_digit: "isalpha c \<Longrightarrow> \<not> isdigit c"
  by (auto simp: isdigit_def isalpha_def)

lemma digit_not_star: "isdigit c \<Longrightarrow> c \<noteq> CHR ''*''"
  by (auto simp: isdigit_def char_code_def)

lemma star_class [simp]: "\<not> isalpha (CHR ''*'')" "\<not> isdigit (CHR ''*'')"
  by (simp_all add: isalpha_def isdigit_def char_code_def)

lemma space_not_NUL: "isspace c \<Longrightarrow> c \<noteq> CHR 0x00"
  by (auto simp: isspace_def char_code_def)

lemma bucket_letter_class:
  "bucket_letter c \<Longrightarrow> isalpha c \<and> \<not> isspace c \<and> c \<noteq> CHR 0x00"
  by (auto simp: bucket_letter_def isalpha_def isspace_def char_code_def)

lemma terminator_class:
  assumes "t = CHR ''>'' \<or> t = CHR ''.''"
  shows "\<not> isalpha t" "\<not> isdigit t" "t \<noteq> CHR ''*''" "t \<noteq> CHR 0x00 \<and> t \<noteq> CHR 0x0A"
  using assms by (auto simp: isalpha_def isdigit_def char_code_def)

subsection \<open>The label\<close>

lemma dec_length: "0 < k \<Longrightarrow> n < 10 ^ k \<Longrightarrow> length (dec n) \<le> k"
proof (induction n arbitrary: k rule: dec.induct)
  case (1 n)
  show ?case
  proof (cases "n < 10")
    case True
    with 1(2) show ?thesis
      by (subst dec.simps) simp
  next
    case False
    with 1(3) have "k \<noteq> 1"
      by auto
    with 1(2) obtain k' where k: "k = Suc k'" "0 < k'"
      by (cases k) auto
    with 1(3) have "n div 10 < 10 ^ k'"
      by (simp add: less_mult_imp_div_less mult.commute)
    from 1(1) [OF False k(2) this] False k show ?thesis
      by (subst dec.simps) simp
  qed
qed

lemma dec_length_int: "0 \<le> line \<Longrightarrow> line \<le> 2147483647 \<Longrightarrow> length (dec (nat line)) \<le> 10"
  by (rule dec_length) simp_all

lemma strstr_found: "strstr (pre @ needle @ post) needle \<noteq> None"
proof (induction pre)
  case Nil
  have "take (length needle) (needle @ post) = needle"
    by simp
  then show ?case
    by (cases "needle @ post") (simp_all del: take_append)
next
  case (Cons c pre)
  then show ?case
    by simp
qed

subsection \<open>ReverseString reverses\<close>

lemma ReverseString_loop_rev:
  assumes "length s = length orig" and "a \<le> length orig div 2"
    and "\<forall>j<length orig. s ! j = (if j < a \<or> length orig - a \<le> j then orig ! (length orig - 1 - j) else orig ! j)"
  shows "ReverseString_loop (int a) (int (length orig) div 2) (int (length orig) - 1) s = rev orig"
  using assms
proof (induction "length orig div 2 - a" arbitrary: a s)
  case 0
  let ?n = "length orig"
  from 0 have a: "a = ?n div 2"
    by simp
  have "s = rev orig"
  proof (rule nth_equalityI)
    show "length s = length (rev orig)"
      using 0 by simp
  next
    fix j
    assume "j < length s"
    then have j: "j < ?n"
      using 0 by simp
    have "s ! j = orig ! (?n - 1 - j)"
    proof (cases "j < a \<or> ?n - a \<le> j")
      case True
      with 0 j show ?thesis by simp
    next
      case False
      with a j have "?n - 1 - j = j"
        by linarith
      with False 0 j show ?thesis by simp
    qed
    with j show "s ! j = rev orig ! j"
      by (simp add: rev_nth)
  qed
  moreover have "\<not> int a < int ?n div 2"
    using a by linarith
  ultimately show ?case
    by (subst ReverseString_loop.simps) simp
next
  case (Suc k)
  let ?n = "length orig"
  from Suc(2) have lt: "a < ?n div 2"
    by simp
  then have an: "a < ?n" "a < ?n - 1 - a" "?n - 1 - a < ?n"
    by linarith+
  let ?s = "(s[?n - 1 - a := s ! a])[a := s ! (?n - 1 - a)]"
  have idx: "nat (int ?n - 1 - int a) = ?n - 1 - a" "nat (int a) = a"
    using an by linarith+
  have lt': "int a < int ?n div 2"
    using lt by linarith
  have unfold: "ReverseString_loop (int a) (int ?n div 2) (int ?n - 1) s
           = ReverseString_loop (int (Suc a)) (int ?n div 2) (int ?n - 1) ?s"
    by (subst ReverseString_loop.simps) (simp only: lt' if_True idx of_nat_Suc add.commute)
  have "ReverseString_loop (int (Suc a)) (int ?n div 2) (int ?n - 1) ?s = rev orig"
  proof (rule Suc(1))
    show "k = ?n div 2 - Suc a"
      using Suc(2) by simp
    show "length ?s = ?n"
      using Suc(3) by simp
    show "Suc a \<le> ?n div 2"
      using lt by simp
    show "\<forall>j<?n. ?s ! j = (if j < Suc a \<or> ?n - Suc a \<le> j then orig ! (?n - 1 - j) else orig ! j)"
    proof (intro allI impI)
      fix j
      assume j: "j < ?n"
      consider "j = a" | "j = ?n - 1 - a" | "j \<noteq> a" "j \<noteq> ?n - 1 - a"
        by blast
      then show "?s ! j = (if j < Suc a \<or> ?n - Suc a \<le> j then orig ! (?n - 1 - j) else orig ! j)"
      proof cases
        case 1
        have "?s ! a = s ! (?n - 1 - a)"
          using an Suc(3) by simp
        also have "\<dots> = orig ! (?n - 1 - a)"
        proof -
          have "\<not> (?n - 1 - a < a \<or> ?n - a \<le> ?n - 1 - a)"
            using an by linarith
          with Suc(5) an(3) show ?thesis
            by simp
        qed
        finally show ?thesis
          using 1 by simp
      next
        case 2
        have "?s ! (?n - 1 - a) = s ! a"
          using an Suc(3) by simp
        also have "\<dots> = orig ! a"
        proof -
          have "\<not> (a < a \<or> ?n - a \<le> a)"
            using an by linarith
          with Suc(5) an(1) show ?thesis
            by simp
        qed
        also have "a = ?n - 1 - (?n - 1 - a)"
          using an by linarith
        finally show ?thesis
          using 2 an by simp
      next
        case 3
        then have "?s ! j = s ! j"
          by simp
        moreover have "(j < Suc a \<or> ?n - Suc a \<le> j) = (j < a \<or> ?n - a \<le> j)"
          using 3 an by linarith
        ultimately show ?thesis
          using Suc(5) j by simp
      qed
    qed
  qed
  with unfold show ?case
    by simp
qed

lemma ReverseString_rev: "ReverseString str = rev str"
  using ReverseString_loop_rev [of str str 0]
  by (simp add: ReverseString_def Let_def)

subsection \<open>One entry of the rule file\<close>

text \<open>
  An entry is a run of letters \<open>sfx\<close>, an optional \<open>*\<close>, a run of digits, a run of
  letters \<open>app\<close> (which needs a \<open>*\<close> or a digit in front of it, or it is part of
  \<open>sfx\<close>) and the character \<open>t\<close> at which the reading stops.
\<close>

lemma entry_parse:
  assumes sfx: "sfx \<noteq> []" "list_all isalpha sfx"
    and star: "star = [] \<or> star = ''*''"
    and digits: "list_all isdigit digits"
    and app: "list_all isalpha app"
    and sep: "star = [] \<and> digits = [] \<longrightarrow> app = []"
    and t: "\<not> isalpha t" "app = [] \<longrightarrow> \<not> isdigit t" "star = [] \<and> digits = [] \<longrightarrow> t \<noteq> CHR ''*''"
  shows "LoadRules_entry line (hd sfx) (tl sfx @ star @ digits @ app @ t # rest) =
     (let id4 = ''('' @ dec (nat line) @ '':'' @ sfx @ star @ digits @ app in
      if length id4 > 63 \<or> (digits \<noteq> [] \<and> atoi digits > 2147483647) then Inl Undefined_behaviour
      else if t \<noteq> CHR ''>'' \<and> t \<noteq> CHR ''.'' then Inl Invalid_rule_encountered
      else if length id4 > 60 then Inl Undefined_behaviour
      else Inr (\<lparr>intact = (star \<noteq> []), remove = (if digits \<noteq> [] then atoi digits else 0),
                 restem = (t = CHR ''>''), suffix = rev sfx, append_str = app,
                 id_str = id4 @ [t] @ '')''\<rparr>, t, rest))"
proof -
  define R3 where "R3 = app @ t # rest"
  define R2 where "R2 = digits @ R3"
  define R1 where "R1 = star @ R2"
  obtain y3 ys3 where R3: "R3 = y3 # ys3" "\<not> isdigit y3"
    using app t(2) by (cases app) (auto simp: R3_def alpha_not_digit)
  have R2ne: "R2 \<noteq> []"
    by (simp add: R2_def R3)
  obtain y1 ys1 where R1: "R1 = y1 # ys1" "\<not> isalpha y1" "star = [] \<longrightarrow> y1 \<noteq> CHR ''*''"
  proof (cases "star = []")
    case False
    with star that show ?thesis
      by (simp add: R1_def)
  next
    case True
    note s = this
    show ?thesis
    proof (cases digits)
      case Nil
      with s sep t that show ?thesis
        by (simp add: R1_def R2_def R3_def)
    next
      case (Cons d ds)
      with s digits that show ?thesis
        by (simp add: R1_def R2_def digit_not_alpha digit_not_star)
    qed
  qed
  have ra1: "read_alpha (hd sfx) (tl sfx @ star @ digits @ app @ t # rest) = (sfx, y1, ys1)"
    using read_alpha_split [OF sfx(2) R1(2), of ys1] sfx(1) R1(1)
    by (simp add: R1_def R2_def R3_def)
  have st: "(if y1 = CHR ''*'' then (True, fgetc ys1) else (False, y1, ys1)) = (star \<noteq> [], hd R2, tl R2)"
  proof (cases "star = []")
    case True
    with R1 R2ne show ?thesis
      by (simp add: R1_def)
  next
    case False
    with star R1 R2ne show ?thesis
      by (cases R2) (auto simp: R1_def fgetc_def)
  qed
  have rd: "read_digit (hd R2) (tl R2) = (digits, y3, ys3)"
    using read_digit_split [OF digits R3(2), of ys3] by (simp add: R2_def R3)
  have ra2: "read_alpha y3 ys3 = (app, t, rest)"
    using read_alpha_split [OF app t(1), of rest] R3(1) by (simp add: R3_def)
  show ?thesis
    unfolding LoadRules_entry_def Let_def ra1 prod.case st rd ra2 ReverseString_rev
    using star by auto
qed

lemma entry_suffix:
  assumes "LoadRules_entry line c s = Inr (rule, ch, s')"
  shows "suffix rule = rev (takeWhile isalpha (c # s))"
  using assms
  unfolding LoadRules_entry_def Let_def read_alpha_run read_digit_run ReverseString_rev
  by (auto split: if_splits prod.splits)

subsection \<open>The loop over the entries\<close>

lemma loop_space:
  "list_all isspace ws \<Longrightarrow> LoadRules_loop (ws @ s) line rules = LoadRules_loop s line rules"
proof (induction ws)
  case Nil
  show ?case by simp
next
  case (Cons w ws)
  then show ?case
    by (subst LoadRules_loop.simps) (simp add: fgetc_def space_not_NUL)
qed

lemma loop_entry:
  assumes "c \<noteq> CHR 0x00" and "\<not> isspace c" and "line \<noteq> 2147483647"
  shows "LoadRules_loop (c # s) line rules =
     (if \<not> bucket_letter c then Some (Inl Invalid_rule_encountered)
      else (case LoadRules_entry (line + 1) c s of
              Inl e \<Rightarrow> Some (Inl e)
            | Inr (rule, file_ch, s) \<Rightarrow>
                if strstr (id_str rule) '':end0.)'' \<noteq> None then Some (Inr rules)
                else (case skip_line file_ch s of
                        None \<Rightarrow> None
                      | Some s \<Rightarrow>
                          LoadRules_loop s (line + 1) (add_rule rules (nat (char_code c - 97)) rule))))"
  using assms
  by (subst LoadRules_loop.simps) (auto simp: fgetc_def Let_def bucket_letter_def)

lemma loop_bad_first:
  assumes "list_all isspace ws" and "c \<noteq> CHR 0x00" and "\<not> isspace c" and "\<not> bucket_letter c"
    and "line \<noteq> 2147483647"
  shows "LoadRules_loop (ws @ c # rest) line rules = Some (Inl Invalid_rule_encountered)"
  unfolding loop_space [OF assms(1)] loop_entry [OF assms(2,3,5)] using assms(4) by simp

lemma hd_tl_append: "xs \<noteq> [] \<Longrightarrow> hd xs # tl xs @ ys = xs @ ys"
  by (cases xs) simp_all

lemma loop_bad_terminator:
  assumes ws: "list_all isspace ws" and line: "0 \<le> line" "line < 2147483647"
    and sfx: "sfx \<noteq> []" "list_all isalpha sfx" "bucket_letter (hd sfx)"
    and star: "star = [] \<or> star = ''*''"
    and digits: "list_all isdigit digits"
    and app: "list_all isalpha app"
    and sep: "star = [] \<and> digits = [] \<longrightarrow> app = []"
    and t: "\<not> isalpha t" "app = [] \<longrightarrow> \<not> isdigit t" "star = [] \<and> digits = [] \<longrightarrow> t \<noteq> CHR ''*''"
    and bad: "t \<noteq> CHR ''>''" "t \<noteq> CHR ''.''"
    and fits: "length (dec (nat (line + 1))) + length sfx + length star + length digits + length app \<le> 61"
              "digits = [] \<or> atoi digits \<le> 2147483647"
  shows "LoadRules_loop (ws @ sfx @ star @ digits @ app @ t # rest) line rules
           = Some (Inl Invalid_rule_encountered)"
proof -
  from bucket_letter_class [OF sfx(3)] have c: "hd sfx \<noteq> CHR 0x00" "\<not> isspace (hd sfx)"
    by simp_all
  from line have ne: "line \<noteq> 2147483647"
    by simp
  have "LoadRules_loop (ws @ sfx @ star @ digits @ app @ t # rest) line rules
      = LoadRules_loop (hd sfx # tl sfx @ star @ digits @ app @ t # rest) line rules"
    unfolding loop_space [OF ws] hd_tl_append [OF sfx(1)] ..
  also have "\<dots> = Some (Inl Invalid_rule_encountered)"
    unfolding loop_entry [OF c ne] entry_parse [OF sfx(1,2) star digits app sep t]
    using sfx(3) bad fits by (auto simp: Let_def)
  finally show ?thesis .
qed

lemma entry_end0:
  assumes "0 \<le> line" and "line \<le> 2147483647"
  shows "LoadRules_entry line (CHR ''e'') (''nd0.'' @ rest) =
      Inr (\<lparr>intact = False, remove = 0, restem = False, suffix = ''dne'', append_str = [],
            id_str = ''('' @ dec (nat line) @ '':end0.)''\<rparr>, CHR ''.'', rest)"
  using entry_parse [of "''end''" "[]" "''0''" "[]" "CHR ''.''" line rest]
    dec_length_int [OF assms]
  by (simp add: isalpha_def isdigit_def char_code_def atoi_def Let_def)

lemma loop_end0:
  assumes ws: "list_all isspace ws" and line: "0 \<le> line" "line < 2147483647"
  shows "LoadRules_loop (ws @ ''end0.'' @ rest) line rules = Some (Inr rules)"
proof -
  have c: "CHR ''e'' \<noteq> CHR 0x00" "\<not> isspace (CHR ''e'')" "bucket_letter (CHR ''e'')"
    by (simp_all add: isspace_def bucket_letter_def char_code_def)
  from line have ne: "line \<noteq> 2147483647" and le: "0 \<le> line + 1" "line + 1 \<le> 2147483647"
    by simp_all
  have "LoadRules_loop (ws @ ''end0.'' @ rest) line rules
          = LoadRules_loop (CHR ''e'' # ''nd0.'' @ rest) line rules"
    unfolding loop_space [OF ws] by simp
  also have "\<dots> = Some (Inr rules)"
    unfolding loop_entry [OF c(1,2) ne] entry_end0 [OF le]
    using c(3) strstr_found [of "''('' @ dec (nat (line + 1))" "'':end0.)''" "[]"]
    by simp
  finally show ?thesis .
qed

lemma loop_compile_entry:
  assumes ws: "list_all isspace ws" and line: "0 \<le> line" "line < 2147483647"
    and sfx: "sfx \<noteq> []" "list_all isalpha sfx" "bucket_letter (hd sfx)"
    and star: "star = [] \<or> star = ''*''"
    and digits: "list_all isdigit digits"
    and app: "list_all isalpha app"
    and sep: "star = [] \<and> digits = [] \<longrightarrow> app = []"
    and t: "t = CHR ''>'' \<or> t = CHR ''.''"
    and fits: "length (dec (nat (line + 1))) + length sfx + length star + length digits
                 + length app \<le> 58"
              "digits = [] \<or> atoi digits \<le> 2147483647"
    and notend: "strstr (''('' @ dec (nat (line + 1)) @ '':'' @ sfx @ star @ digits @ app
                           @ [t] @ '')'') '':end0.)'' = None"
    and comment: "\<forall>c \<in> set comment. c \<noteq> CHR 0x00 \<and> c \<noteq> CHR 0x0A"
                 "nl = CHR 0x00 \<or> nl = CHR 0x0A"
  shows "LoadRules_loop (ws @ sfx @ star @ digits @ app @ t # comment @ nl # rest) line rules
       = LoadRules_loop rest (line + 1)
           (add_rule rules (nat (char_code (hd sfx) - 97))
              \<lparr>intact = (star \<noteq> []), remove = (if digits \<noteq> [] then atoi digits else 0),
                restem = (t = CHR ''>''), suffix = rev sfx, append_str = app,
                id_str = ''('' @ dec (nat (line + 1)) @ '':'' @ sfx @ star @ digits @ app
                           @ [t] @ '')''\<rparr>)"
proof -
  from bucket_letter_class [OF sfx(3)] have c: "hd sfx \<noteq> CHR 0x00" "\<not> isspace (hd sfx)"
    by simp_all
  from line have ne: "line \<noteq> 2147483647"
    by simp
  note tc = terminator_class [OF t]
  let ?rule = "\<lparr>intact = (star \<noteq> []), remove = (if digits \<noteq> [] then atoi digits else 0),
                restem = (t = CHR ''>''), suffix = rev sfx, append_str = app,
                id_str = ''('' @ dec (nat (line + 1)) @ '':'' @ sfx @ star @ digits @ app
                           @ [t] @ '')''\<rparr>"
  have t2: "app = [] \<longrightarrow> \<not> isdigit t" and t3: "star = [] \<and> digits = [] \<longrightarrow> t \<noteq> CHR ''*''"
    using tc by simp_all
  have e: "LoadRules_entry (line + 1) (hd sfx)
             (tl sfx @ star @ digits @ app @ t # comment @ nl # rest)
             = Inr (?rule, t, comment @ nl # rest)"
    unfolding entry_parse [OF sfx(1,2) star digits app sep tc(1) t2 t3] Let_def
    using t fits by auto
  have sk: "skip_line t (comment @ nl # rest) = Some rest"
    by (rule skip_line_find [OF comment(2,1) tc(4)])
  have "LoadRules_loop (ws @ sfx @ star @ digits @ app @ t # comment @ nl # rest) line rules
      = LoadRules_loop (hd sfx # tl sfx @ star @ digits @ app @ t # comment @ nl # rest)
          line rules"
    unfolding loop_space [OF ws] hd_tl_append [OF sfx(1)] ..
  also have "\<dots> = LoadRules_loop rest (line + 1)
                     (add_rule rules (nat (char_code (hd sfx) - 97)) ?rule)"
    unfolding loop_entry [OF c ne] e
    using sfx(3) notend sk by simp
  finally show ?thesis .
qed

lemmas class_eval = isalpha_def isdigit_def isspace_def bucket_letter_def char_code_def

lemmas load_eval = LoadRules_def LoadRules_loop.simps fgetc_def LoadRules_entry_def read_alpha_run
  read_digit_run ReverseString_rev skip_line.simps class_eval
  dec.simps digit_char_def atoi_def add_rule_def Let_def

text \<open>
  A rule file needs the entry \<open>end0.\<close>: where the file ends, \<open>file_ch\<close> is
  \<open>(char)EOF\<close>, which is outside a to z.
\<close>

lemma rule_file_without_end:
  "LoadRules (Some (''s1>'' @ [CHR 0x0A])) = Some (Inl Invalid_rule_encountered)"
  by (simp add: load_eval)

subsection \<open>Compiling one entry\<close>

text \<open>
  C8. The compiler stores the suffix run reversed. An entry made of the letters \<open>sfx\<close>
  (the first one in a to z), an optional \<open>*\<close>, digits, append letters and the terminator
  \<open>>\<close> or \<open>.\<close>, followed by a comment up to the end of the line, that fits the label
  buffer and is not the pseudo-rule \<open>end0.\<close>, is compiled into a rule whose suffix is
  \<open>rev sfx\<close>, added to the bucket of the first letter read, and the compiler goes on
  behind the line. The entry \<open>gni3>\<close> stores the suffix ing.
\<close>

theorem suffix_stored_reversed:
  assumes "list_all isspace ws" and "0 \<le> line" and "line < 2147483647"
    and "sfx \<noteq> []" and "list_all isalpha sfx" and "bucket_letter (hd sfx)"
    and "star = [] \<or> star = ''*''"
    and "list_all isdigit digits"
    and "list_all isalpha app"
    and "star = [] \<and> digits = [] \<longrightarrow> app = []"
    and "t = CHR ''>'' \<or> t = CHR ''.''"
    and "length (dec (nat (line + 1))) + length sfx + length star + length digits
           + length app \<le> 58"
    and "digits = [] \<or> atoi digits \<le> 2147483647"
    and "strstr (''('' @ dec (nat (line + 1)) @ '':'' @ sfx @ star @ digits @ app
                    @ [t] @ '')'') '':end0.)'' = None"
    and "\<forall>c \<in> set comment. c \<noteq> CHR 0x00 \<and> c \<noteq> CHR 0x0A"
    and "nl = CHR 0x00 \<or> nl = CHR 0x0A"
  shows "LoadRules_loop (ws @ sfx @ star @ digits @ app @ t # comment @ nl # rest) line rules
       = LoadRules_loop rest (line + 1)
           (add_rule rules (nat (char_code (hd sfx) - 97))
              \<lparr>intact = (star \<noteq> []), remove = (if digits \<noteq> [] then atoi digits else 0),
                restem = (t = CHR ''>''), suffix = rev sfx, append_str = app,
                id_str = ''('' @ dec (nat (line + 1)) @ '':'' @ sfx @ star @ digits @ app
                           @ [t] @ '')''\<rparr>)"
  using assms by (rule loop_compile_entry)

theorem suffix_stored_reversed_witness:
  "LoadRules (Some (''gni3>'' @ [CHR 0x0A] @ ''end0.'')) =
     Some (Inr ((replicate 26 [])
       [6 := [\<lparr>intact = False, remove = 3, restem = True, suffix = ''ing'', append_str = [],
               id_str = ''(1:gni3>)''\<rparr>]]))"
proof -
  have "LoadRules_loop (''gni3>'' @ [CHR 0x0A] @ ''end0.'') 0 (replicate 26 [])
      = LoadRules_loop ''end0.'' 1 (add_rule (replicate 26 []) 6
         \<lparr>intact = False, remove = 3, restem = True, suffix = ''ing'', append_str = [],
               id_str = ''(1:gni3>)''\<rparr>)"
    using suffix_stored_reversed [of "[]" 0 "''gni''" "[]" "''3''" "[]" "CHR ''>''" "[]"
        "CHR 0x0A" "''end0.''" "replicate 26 []"]
    by (simp add: class_eval dec.simps digit_char_def atoi_def)
  also have "\<dots> = Some (Inr (add_rule (replicate 26 []) 6
         \<lparr>intact = False, remove = 3, restem = True, suffix = ''ing'', append_str = [],
               id_str = ''(1:gni3>)''\<rparr>))"
    using loop_end0 [of "[]" 1 "[]"] by simp
  finally show ?thesis
    by (simp add: LoadRules_def add_rule_def)
qed

subsection \<open>The end of the rules\<close>

text \<open>
  C6, as amended. The pseudo-rule is the entry \<open>end0.\<close>: the general parser reads it as
  the letters e, n, d (suffix dne), no \<open>*\<close>, remove count 0, no append letters and the
  terminator \<open>.\<close>, and assembles the label \<open>(n:end0.)\<close> for its line \<open>n\<close>; the compiler
  finds \<open>:end0.)\<close> in that label, stops reading and returns the table built so far,
  whatever follows in the stream.
\<close>

theorem end_rule_stops:
  assumes "list_all isspace ws" and "0 \<le> line" and "line < 2147483647"
  shows "LoadRules_entry (line + 1) (CHR ''e'') (''nd0.'' @ rest) =
           Inr (\<lparr>intact = False, remove = 0, restem = False, suffix = ''dne'', append_str = [],
                 id_str = ''('' @ dec (nat (line + 1)) @ '':end0.)''\<rparr>, CHR ''.'', rest)
       \<and> strstr (''('' @ dec (nat (line + 1)) @ '':end0.)'') '':end0.)'' \<noteq> None
       \<and> LoadRules_loop (ws @ ''end0.'' @ rest) line rules = Some (Inr rules)"
proof -
  from assms have "0 \<le> line + 1" "line + 1 \<le> 2147483647"
    by simp_all
  then show ?thesis
    using entry_end0 [of "line + 1" rest] loop_end0 [OF assms, of rest rules]
      strstr_found [of "''('' @ dec (nat (line + 1))" "'':end0.)''" "[]"]
    by simp
qed

theorem end_rule_stops_witness:
  "LoadRules_loop ''  end0. rest of the file &'' 3 example_rules = Some (Inr example_rules)
   \<and> LoadRules (Some ''end0.'') = Some (Inr (replicate 26 []))"
  using end_rule_stops [of "''  ''" 3 "'' rest of the file &''" example_rules]
    end_rule_stops [of "[]" 0 "[]" "replicate 26 []"]
  by (simp add: LoadRules_def isspace_def char_code_def)

text \<open>
  The claim as stated fails: an entry with an empty suffix, remove count 0 and the
  terminator \<open>.\<close> (\<open>0.\<close>, or \<open>.\<close> alone) is an invalid rule, and the pseudo-rule that does
  end the compilation has the suffix dne and, as the first entry, the line number 1.
\<close>

theorem end_rule_label:
  "LoadRules (Some ''0.'') = Some (Inl Invalid_rule_encountered)
   \<and> LoadRules (Some ''.'') = Some (Inl Invalid_rule_encountered)
   \<and> LoadRules_entry 1 (CHR ''e'') ''nd0.'' =
       Inr (\<lparr>intact = False, remove = 0, restem = False, suffix = ''dne'', append_str = [],
             id_str = ''(1:end0.)''\<rparr>, CHR ''.'', [])"
  by (simp add: load_eval)

subsection \<open>Invalid entries\<close>

lemma loop_nul:
  assumes "list_all isspace ws"
  shows "LoadRules_loop (ws @ CHR 0x00 # rest) line rules = Some (Inr rules)"
  unfolding loop_space [OF assms]
  by (subst LoadRules_loop.simps) (simp add: fgetc_def)

text \<open>
  C7, as amended. Where the compiler starts to read an entry, whatever table it has built
  so far: if the first character is not the NUL byte and is outside a to z, the result is
  the error of an invalid rule; and if the entry is well-formed and fits the label buffer
  up to the character \<open>t\<close> that ends its letters and digits, and \<open>t\<close> is neither \<open>>\<close>
  nor \<open>.\<close>, the result is the same error; in both cases no table is returned. A NUL
  byte where an entry would start ends the loop, and the table built so far is returned.
\<close>

theorem invalid_entry_fails:
  assumes "list_all isspace ws" and "0 \<le> line" and "line < 2147483647"
  shows "(c \<noteq> CHR 0x00 \<and> \<not> isspace c \<and> \<not> bucket_letter c \<longrightarrow>
            LoadRules_loop (ws @ c # rest) line rules = Some (Inl Invalid_rule_encountered))
       \<and> (sfx \<noteq> [] \<and> list_all isalpha sfx \<and> bucket_letter (hd sfx)
          \<and> (star = [] \<or> star = ''*'') \<and> list_all isdigit digits \<and> list_all isalpha app
          \<and> (star = [] \<and> digits = [] \<longrightarrow> app = [])
          \<and> \<not> isalpha t \<and> (app = [] \<longrightarrow> \<not> isdigit t)
          \<and> (star = [] \<and> digits = [] \<longrightarrow> t \<noteq> CHR ''*'')
          \<and> t \<noteq> CHR ''>'' \<and> t \<noteq> CHR ''.''
          \<and> length (dec (nat (line + 1))) + length sfx + length star + length digits
               + length app \<le> 61
          \<and> (digits = [] \<or> atoi digits \<le> 2147483647) \<longrightarrow>
            LoadRules_loop (ws @ sfx @ star @ digits @ app @ t # rest) line rules
              = Some (Inl Invalid_rule_encountered))
       \<and> LoadRules_loop (ws @ CHR 0x00 # rest) line rules = Some (Inr rules)"
proof (intro conjI impI)
  assume "c \<noteq> CHR 0x00 \<and> \<not> isspace c \<and> \<not> bucket_letter c"
  with assms show "LoadRules_loop (ws @ c # rest) line rules = Some (Inl Invalid_rule_encountered)"
    using loop_bad_first [of ws c line rest rules] by simp
next
  assume a: "sfx \<noteq> [] \<and> list_all isalpha sfx \<and> bucket_letter (hd sfx)
          \<and> (star = [] \<or> star = ''*'') \<and> list_all isdigit digits \<and> list_all isalpha app
          \<and> (star = [] \<and> digits = [] \<longrightarrow> app = [])
          \<and> \<not> isalpha t \<and> (app = [] \<longrightarrow> \<not> isdigit t)
          \<and> (star = [] \<and> digits = [] \<longrightarrow> t \<noteq> CHR ''*'')
          \<and> t \<noteq> CHR ''>'' \<and> t \<noteq> CHR ''.''
          \<and> length (dec (nat (line + 1))) + length sfx + length star + length digits
               + length app \<le> 61
          \<and> (digits = [] \<or> atoi digits \<le> 2147483647)"
  show "LoadRules_loop (ws @ sfx @ star @ digits @ app @ t # rest) line rules
              = Some (Inl Invalid_rule_encountered)"
    by (rule loop_bad_terminator) (use assms a in blast)+
next
  show "LoadRules_loop (ws @ CHR 0x00 # rest) line rules = Some (Inr rules)"
    using assms(1) by (rule loop_nul)
qed

theorem invalid_entry_fails_witness:
  "LoadRules (Some '' Sei3y.'') = Some (Inl Invalid_rule_encountered)
   \<and> LoadRules (Some ''sei3y;'') = Some (Inl Invalid_rule_encountered)
   \<and> LoadRules (Some ('' '' @ CHR 0x00 # ''ei3y.'')) = Some (Inr (replicate 26 []))"
  using invalid_entry_fails [of "'' ''" 0 "CHR ''S''" "''ei3y.''" "replicate 26 []"]
   invalid_entry_fails [of "[]" 0 _ "[]" "replicate 26 []" "''sei''" "[]" "''3''" "''y''"
     "CHR '';''"]
  by (simp add: LoadRules_def class_eval dec.simps digit_char_def atoi_def)

text \<open>
  The claim as stated fails on a NUL byte, which is outside a to z: behind the rule
  \<open>s1>\<close> and the end of its line it ends the compilation, and the table with this one
  rule is returned, whatever follows.
\<close>

theorem nul_byte_returns_table:
  "LoadRules (Some (''s1>'' @ [CHR 0x0A, CHR 0x00] @ ''sei3y.'')) =
     Some (Inr ((replicate 26 [])
       [18 := [\<lparr>intact = False, remove = 1, restem = True, suffix = ''s'', append_str = [],
                id_str = ''(1:s1>)''\<rparr>]]))"
  by (simp add: load_eval)

subsection \<open>The compiled table\<close>

lemma add_rule_well_bucketed:
  assumes "well_bucketed rules" and "i < 26" and "rule_in_bucket i rule"
  shows "well_bucketed (add_rule rules i rule)"
  using assms
  by (auto simp: well_bucketed_def add_rule_def list_all_iff nth_list_update)

lemma entry_in_bucket:
  assumes "LoadRules_entry line c s = Inr (rule, ch, s')" and "bucket_letter c"
  shows "rule_in_bucket (nat (char_code c - 97)) rule"
proof -
  from assms(2) have "isalpha c"
    by (simp add: bucket_letter_class)
  with entry_suffix [OF assms(1)] have "suffix rule = rev (takeWhile isalpha s) @ [c]"
    by simp
  moreover have "list_all isalpha (takeWhile isalpha s)"
    by (auto simp: list_all_iff dest: set_takeWhileD)
  ultimately show ?thesis
    using assms(2) \<open>isalpha c\<close> by (simp add: rule_in_bucket_def bucket_letter_def)
qed

lemma loop_well_bucketed:
  assumes "LoadRules_loop s line rules = Some y"
  shows "well_bucketed rules \<longrightarrow> (\<forall>t. y = Inr t \<longrightarrow> well_bucketed t)"
proof (rule LoadRules_loop.raw_induct [OF _ assms,
    where P = "\<lambda>s line rules y. well_bucketed rules \<longrightarrow> (\<forall>t. y = Inr t \<longrightarrow> well_bucketed t)"])
  fix loop s line rules y
  assume IH: "\<And>s line rules y. loop s line rules = Some y \<Longrightarrow>
                well_bucketed rules \<longrightarrow> (\<forall>t. y = Inr t \<longrightarrow> well_bucketed t)"
    and body: "(case fgetc s of (file_ch, s) \<Rightarrow>
      if file_ch = CHR 0x00 then Some (Inr rules)
      else if isspace file_ch then loop s line rules
      else if line = 2147483647 then Some (Inl Undefined_behaviour)
      else (let line = line + 1;
                rule_idx = char_code file_ch - 97
            in if rule_idx < 0 \<or> rule_idx > 25 then Some (Inl Invalid_rule_encountered)
               else (case LoadRules_entry line file_ch s of
                       Inl e \<Rightarrow> Some (Inl e)
                     | Inr (rule, file_ch, s) \<Rightarrow>
                         if strstr (id_str rule) '':end0.)'' \<noteq> None then Some (Inr rules)
                         else (case skip_line file_ch s of
                                 None \<Rightarrow> None
                               | Some s \<Rightarrow>
                                   loop s line (add_rule rules (nat rule_idx) rule))))) = Some y"
  show "well_bucketed rules \<longrightarrow> (\<forall>t. y = Inr t \<longrightarrow> well_bucketed t)"
  proof (intro impI allI)
    fix t
    assume wb: "well_bucketed rules" and y: "y = Inr t"
    obtain c s1 where f: "fgetc s = (c, s1)"
      by (cases "fgetc s")
    show "well_bucketed t"
    proof (cases "c = CHR 0x00")
      case True
      with body f y wb show ?thesis by simp
    next
      case nz: False
      show ?thesis
      proof (cases "isspace c")
        case True
        with body f nz have "loop s1 line rules = Some y" by simp
        from IH [OF this] wb y show ?thesis by simp
      next
        case ns: False
        from body f nz ns y have ne: "line \<noteq> 2147483647" and bl: "bucket_letter c"
          by (auto simp: Let_def bucket_letter_def split: if_splits)
        then have idx: "\<not> (char_code c - 97 < 0 \<or> char_code c - 97 > 25)"
          by (auto simp: bucket_letter_def)
        from body f nz ns ne idx y obtain rule ch s2 where e: "LoadRules_entry (line + 1) c s1 = Inr (rule, ch, s2)"
          by (cases "LoadRules_entry (line + 1) c s1") (auto simp: Let_def)
        show ?thesis
        proof (cases "strstr (id_str rule) '':end0.)'' \<noteq> None")
          case True
          with body f nz ns ne idx e y wb show ?thesis
            by (simp add: Let_def)
        next
          case False
          with body f nz ns ne idx e obtain s3 where
            l: "loop s3 (line + 1) (add_rule rules (nat (char_code c - 97)) rule) = Some y"
            by (auto simp: Let_def split: option.splits)
          from bl have "nat (char_code c - 97) < 26"
            unfolding bucket_letter_def by linarith
          from add_rule_well_bucketed [OF wb this entry_in_bucket [OF e bl]] IH [OF l] y
          show ?thesis by simp
        qed
      qed
    qed
  qed
qed

lemma example_compiled:
  "LoadRules (Some (''ss.'' @ [CHR 0x0A] @ ''sei3y.  ies to y'' @ [CHR 0x0A] @ ''s1>''
                     @ [CHR 0x0A] @ ''end0.'')) = Some (Inr example_rules)"
  by (simp add: load_eval example_rules_def example_bucket_def)

text \<open>
  C9, as amended. In every table that the compiler returns there are 26 buckets, and every
  rule of bucket \<open>i\<close> has a suffix that is not empty, consists of letters (of either
  case) only, and ends with the lower-case letter number \<open>i\<close>, the first character of
  its entry.
\<close>

theorem compiled_suffixes:
  assumes "LoadRules rulefile = Some (Inr table)"
  shows "length table = 26 \<and>
     (\<forall>i<26. \<forall>r \<in> set (table ! i). suffix r \<noteq> [] \<and> list_all isalpha (suffix r)
         \<and> bucket_letter (last (suffix r)) \<and> char_code (last (suffix r)) - 97 = int i)"
proof -
  from assms obtain s where s: "LoadRules_loop s 0 (replicate 26 []) = Some (Inr table)"
    by (auto simp: LoadRules_def split: option.splits)
  have "well_bucketed (replicate 26 [])"
    by (simp add: well_bucketed_def list_all_iff)
  with loop_well_bucketed [OF s] have "well_bucketed table"
    by simp
  then show ?thesis
    by (auto simp: well_bucketed_def list_all_iff rule_in_bucket_def bucket_letter_def)
qed

theorem compiled_suffixes_witness:
  "LoadRules (Some (''ss.'' @ [CHR 0x0A] @ ''sei3y.  ies to y'' @ [CHR 0x0A] @ ''s1>''
                     @ [CHR 0x0A] @ ''end0.'')) = Some (Inr example_rules)
   \<and> length example_rules = 26
   \<and> list_all (\<lambda>r. suffix r \<noteq> [] \<and> list_all isalpha (suffix r)
                  \<and> char_code (last (suffix r)) - 97 = 18) (example_rules ! 18)"
proof -
  from compiled_suffixes [OF example_compiled]
  have len: "length example_rules = 26"
    and all: "\<forall>i<26. \<forall>r \<in> set (example_rules ! i). suffix r \<noteq> []
            \<and> list_all isalpha (suffix r) \<and> bucket_letter (last (suffix r))
            \<and> char_code (last (suffix r)) - 97 = int i"
    by blast+
  have "(18::nat) < 26"
    by simp
  with all have "\<forall>r \<in> set (example_rules ! 18). suffix r \<noteq> []
            \<and> list_all isalpha (suffix r) \<and> bucket_letter (last (suffix r))
            \<and> char_code (last (suffix r)) - 97 = int 18"
    by blast
  with example_compiled len show ?thesis
    by (simp add: list_all_iff)
qed

text \<open>
  The claim as stated fails on an entry with a capital letter behind its first letter:
  \<open>aB.\<close> compiles, and its suffix is Ba.
\<close>

theorem uppercase_suffix_compiled:
  "LoadRules (Some (''aB.'' @ [CHR 0x0A] @ ''end0.'')) =
     Some (Inr ((replicate 26 [])
       [0 := [\<lparr>intact = False, remove = 0, restem = False, suffix = ''Ba'', append_str = [],
               id_str = ''(1:aB.)''\<rparr>]]))
   \<and> \<not> list_all bucket_letter ''Ba''"
  by (simp add: load_eval)

section \<open>Termination of the stemming engine\<close>

subsection \<open>The loop ends when a measure of the stem decreases\<close>

lemma bucket_of_letter:
  assumes "stem \<noteq> []" and "bucket_letter (last stem)" and "length rules = 26"
  shows "\<exists>bucket. bucket_of rules stem = Some bucket \<and> bucket \<in> set rules"
proof -
  let ?idx = "char_code (last stem) - 97"
  from assms(2,3) have "0 \<le> ?idx" "nat ?idx < length rules"
    unfolding bucket_letter_def by linarith+
  moreover from this have "?idx < int (length rules)"
    by linarith
  ultimately show ?thesis
    using assms(1) by (simp add: bucket_of_def Let_def)
qed

lemma scan_total:
  assumes "\<forall>r \<in> set bucket. 0 \<le> remove r"
  shows "\<exists>st'. StemWord_scan bucket st = Inr st'"
  using assms by (induction bucket) (simp_all add: ApplyRule_nonneg Let_def)

lemma candidate_letters:
  assumes "ApplyRule rule stem = Inr c"
  shows "set c \<subseteq> set stem \<union> set (append_str rule)"
proof -
  from assms obtain k where "c = take 254 (take k (take 254 stem) @ append_str rule)"
    unfolding ApplyRule_cut by (auto split: if_splits simp del: take_append)
  then have "set c \<subseteq> set (take k (take 254 stem)) \<union> set (append_str rule)"
    using set_take_subset [of 254 "take k (take 254 stem) @ append_str rule"] by simp
  moreover have "set (take k (take 254 stem)) \<subseteq> set stem"
    using set_take_subset [of k "take 254 stem"] set_take_subset [of 254 stem] by blast
  ultimately show ?thesis
    by blast
qed

lemma candidate_shorter:
  assumes "RuleMatches rule stem i" and "0 \<le> remove rule" and "shortening rule"
    and "ApplyRule rule stem = Inr c" and "length stem \<le> 254"
  shows "length c < length stem"
proof -
  from assms(1) have suf: "length (suffix rule) \<le> length stem"
    by (auto simp: RuleMatches_def split: if_splits)
  from assms(4,5) have "c = take 254 (take (length stem - nat (remove rule)) stem @ append_str rule)"
    by (simp add: ApplyRule_nonneg [OF assms(2)])
  then have "length c \<le> length stem - nat (remove rule) + length (append_str rule)"
    by simp
  with assms(3) suf show ?thesis
    unfolding shortening_def by linarith
qed

lemma loop_returns:
  assumes table: "proper_table rules"
    and dec: "\<And>st bucket st'. length (st_stem st) \<le> 254 \<Longrightarrow>
                bucket_of rules (st_stem st) = Some bucket \<Longrightarrow>
                StemWord_scan bucket (st\<lparr>st_restem := False\<rparr>) = Inr st' \<Longrightarrow>
                st_restem st' \<Longrightarrow> (m (st_stem st') :: nat) < m (st_stem st)"
  shows "length (st_stem st) \<le> 254 \<Longrightarrow> IsValid (st_stem st) \<Longrightarrow>
         list_all bucket_letter (st_stem st) \<Longrightarrow> \<exists>st'. StemWord_loop rules st = Some (Inr st')"
proof (induction "m (st_stem st)" arbitrary: st rule: less_induct)
  case less
  show ?case
  proof (cases "st_restem st")
    case False
    then show ?thesis
      by (subst StemWord_loop.simps) simp
  next
    case True
    from less.prems(2) have ne: "st_stem st \<noteq> []"
      by (rule IsValid_nonempty)
    with less.prems(3) have "bucket_letter (last (st_stem st))"
      by (simp add: list_all_iff)
    from bucket_of_letter [OF ne this] table obtain bucket
      where b: "bucket_of rules (st_stem st) = Some bucket" and mem: "bucket \<in> set rules"
      by (auto simp: proper_table_def)
    from table mem have rules: "\<forall>r \<in> set bucket. 0 \<le> remove r
                                  \<and> list_all bucket_letter (append_str r)"
      by (auto simp: proper_table_def list_all_iff)
    let ?st = "st\<lparr>st_restem := False\<rparr>"
    from scan_total [of bucket ?st] rules obtain st1
      where s: "StemWord_scan bucket ?st = Inr st1"
      by blast
    have step: "StemWord_loop rules st = StemWord_loop rules st1"
      using True b s by (subst StemWord_loop.simps) simp
    show ?thesis
    proof (cases "st_restem st1")
      case False
      then have "StemWord_loop rules st1 = Some (Inr st1)"
        by (subst StemWord_loop.simps) simp
      with step show ?thesis
        by simp
    next
      case True
      from dec [OF less.prems(1) b s True] have smaller: "m (st_stem st1) < m (st_stem st)" .
      from scan_cases [OF s] True obtain rule candidate where r: "rule \<in> set bucket"
        and a: "ApplyRule rule (st_stem st) = Inr candidate"
        and v: "IsValid candidate"
        and st1: "st_stem st1 = candidate"
        by auto
      from candidate_letters [OF a] rules r less.prems(3)
      have "list_all bucket_letter (st_stem st1)"
        by (auto simp: st1 list_all_iff)
      from less.hyps [OF smaller _ _ this] v ApplyRule_length [OF a] step show ?thesis
        by (simp add: st1)
    qed
  qed
qed

subsection \<open>Tables with a measure\<close>

lemma shortening_proper: "shortening_table rules \<Longrightarrow> proper_table rules"
  by (auto simp: shortening_table_def proper_table_def list_all_iff)

lemma shortening_decreases:
  assumes "shortening_table rules" and "length (st_stem st) \<le> 254"
    and "bucket_of rules (st_stem st) = Some bucket"
    and "StemWord_scan bucket (st\<lparr>st_restem := False\<rparr>) = Inr st'" and "st_restem st'"
  shows "length (st_stem st') < length (st_stem st)"
proof -
  from assms(3) have "bucket \<in> set rules"
    by (auto simp: bucket_of_def Let_def split: if_splits)
  with assms(1) have rules: "\<forall>r \<in> set bucket. 0 \<le> remove r \<and> (restem r \<longrightarrow> shortening r)"
    by (auto simp: shortening_table_def list_all_iff)
  from scan_cases [OF assms(4)] assms(5) obtain rule candidate where r: "rule \<in> set bucket"
    and m: "RuleMatches rule (st_stem st) (st_intact st)"
    and a: "ApplyRule rule (st_stem st) = Inr candidate"
    and st1: "st_stem st' = candidate" "restem rule"
    by auto
  from rules r st1 have "shortening rule" "0 \<le> remove rule"
    by auto
  from candidate_shorter [OF m this(2,1) a assms(2)] st1 show ?thesis
    by simp
qed

lemma example_shortening: "shortening_table example_rules"
proof -
  have "set example_rules \<subseteq> insert example_bucket (set (replicate 26 []))"
    unfolding example_rules_def by (rule set_update_subset_insert)
  then have sub: "set example_rules \<subseteq> {example_bucket, []}"
    by auto
  have len: "length example_rules = 26"
    by (simp add: example_rules_def)
  have "list_all (\<lambda>r. 0 \<le> remove r \<and> list_all bucket_letter (append_str r)
                      \<and> (restem r \<longrightarrow> shortening r)) example_bucket"
    by (simp add: example_bucket_def shortening_def class_eval)
  with sub len show ?thesis
    unfolding shortening_table_def list_all_iff [of _ example_rules] by auto
qed

lemma keeping_proper: "proper_table keeping_rules"
proof -
  have "set keeping_rules \<subseteq> {[\<lparr>intact = False, remove = 1, restem = True, suffix = ''nc'',
            append_str = ''t'', id_str = ''(2:cn1t>)''\<rparr>],
         [\<lparr>intact = False, remove = 1, restem = True, suffix = ''i'', append_str = ''y'',
               id_str = ''(1:i1y>)''\<rparr>], []}"
    unfolding keeping_rules_def
    by (intro subset_trans [OF set_update_subset_insert] insert_mono) auto
  moreover have "length keeping_rules = 26"
    by (simp add: keeping_rules_def)
  ultimately show ?thesis
    unfolding proper_table_def list_all_iff [of _ keeping_rules]
    by (auto simp: bucket_letter_def char_code_def)
qed

lemma replace_last_letter:
  assumes "stem \<noteq> []" and "length stem \<le> 254" and "remove r = 1" and "append_str r = [x]"
    and "ApplyRule r stem = Inr c"
  shows "length c = length stem \<and> last c = x"
proof -
  let ?c = "take (length stem - 1) stem @ [x]"
  have len: "length ?c = length stem"
    using assms(1) by (cases stem) simp_all
  have "ApplyRule r stem = Inr (take 254 ?c)"
    using assms(2,3,4) by (simp add: ApplyRule_nonneg)
  moreover have "take 254 ?c = ?c"
    using len assms(2) by (simp del: take_append)
  ultimately have "c = ?c"
    using assms(5) by simp
  with len show ?thesis
    by simp
qed

lemma keeping_bucket:
  assumes "bucket_of keeping_rules stem = Some bucket"
  shows "(char_code (last stem) = 105 \<and> bucket = [\<lparr>intact = False, remove = 1, restem = True,
              suffix = ''i'', append_str = ''y'', id_str = ''(1:i1y>)''\<rparr>])
       \<or> (char_code (last stem) = 99 \<and> bucket = [\<lparr>intact = False, remove = 1, restem = True,
              suffix = ''nc'', append_str = ''t'', id_str = ''(2:cn1t>)''\<rparr>])
       \<or> bucket = []"
proof -
  let ?idx = "char_code (last stem) - 97"
  from assms have idx: "0 \<le> ?idx" "nat ?idx < 26" and b: "bucket = keeping_rules ! nat ?idx"
    by (auto simp: bucket_of_def Let_def keeping_rules_def split: if_splits)
  consider "nat ?idx = 2" | "nat ?idx = 8" | "nat ?idx \<noteq> 2" "nat ?idx \<noteq> 8"
    by blast
  then show ?thesis
  proof cases
    case 1
    with idx have "char_code (last stem) = 99"
      by linarith
    with 1 b show ?thesis
      by (simp add: keeping_rules_def)
  next
    case 2
    with idx have "char_code (last stem) = 105"
      by linarith
    with 2 b show ?thesis
      by (simp add: keeping_rules_def)
  next
    case 3
    with idx b show ?thesis
      by (simp add: keeping_rules_def)
  qed
qed

lemma keeping_decreases:
  assumes "length (st_stem st) \<le> 254"
    and "bucket_of keeping_rules (st_stem st) = Some bucket"
    and "StemWord_scan bucket (st\<lparr>st_restem := False\<rparr>) = Inr st'" and "st_restem st'"
  shows "keeping_measure (st_stem st') < keeping_measure (st_stem st)"
proof -
  from assms(2) have ne: "st_stem st \<noteq> []"
    by (auto simp: bucket_of_def split: if_splits)
  from scan_cases [OF assms(3)] assms(4) obtain rule candidate where r: "rule \<in> set bucket"
    and a: "ApplyRule rule (st_stem st) = Inr candidate"
    and st': "st_stem st' = candidate"
    by auto
  from keeping_bucket [OF assms(2)] r
  have "char_code (last (st_stem st)) = 105 \<or> char_code (last (st_stem st)) = 99"
    and "remove rule = 1" and "append_str rule = ''y'' \<or> append_str rule = ''t''"
    by auto
  with replace_last_letter [OF ne assms(1) _ _ a]
  have "length candidate = length (st_stem st)"
    and "last candidate = CHR ''y'' \<or> last candidate = CHR ''t''"
    by auto
  with \<open>char_code (last (st_stem st)) = 105 \<or> char_code (last (st_stem st)) = 99\<close> st'
  show ?thesis
    by (auto simp: keeping_measure_def char_code_def)
qed

lemma keeping_compiled:
  "LoadRules (Some (''i1y>'' @ [CHR 0x0A] @ ''cn1t>'' @ [CHR 0x0A] @ ''end0.''))
     = Some (Inr keeping_rules)"
  by (simp add: load_eval keeping_rules_def)

lemma keeping_run: "StemWord ''taxi'' keeping_rules None = Some (Inr (''taxy'', None))"
  unfolding StemWord_unfold
  apply (simp add: IsValid_def first_char_def)
  apply (subst StemWord_loop.simps)
  apply (simp add: keeping_rules_def stem_eval)
  apply (subst StemWord_loop.simps)
  apply (simp add: keeping_rules_def stem_eval)
  apply (subst StemWord_loop.simps)
  apply simp
  done

subsection \<open>The trace buffer\<close>

text \<open>
  A call that returns with an unbounded trace is, with a buffer of \<open>n\<close> bytes, the
  same call when the returned trace fits the buffer, and runs past the buffer otherwise.
\<close>

lemma scan_debug_fits:
  assumes "StemWord_scan bucket st = Inr st'" and "debug_fits n (st_debug st')"
  shows "debug_fits n (st_debug st)"
  using scan_cases [OF assms(1)] assms(2)
  by (auto simp: debug_fits_def split: option.splits)

lemma loop_sized:
  assumes "StemWord_loop rules st = Some r"
  shows "\<forall>st'. r = Inr st' \<longrightarrow>
           (debug_fits n (st_debug st') \<longrightarrow> debug_fits n (st_debug st))
         \<and> (debug_fits n (st_debug st) \<longrightarrow>
              StemWord_loop_sized n rules st
                = Some (if debug_fits n (st_debug st') then Inr st' else Inl Undefined_behaviour))"
proof (rule StemWord_loop.raw_induct [OF _ assms,
    where P = "\<lambda>rules st r. \<forall>st'. r = Inr st' \<longrightarrow>
           (debug_fits n (st_debug st') \<longrightarrow> debug_fits n (st_debug st))
         \<and> (debug_fits n (st_debug st) \<longrightarrow>
              StemWord_loop_sized n rules st
                = Some (if debug_fits n (st_debug st') then Inr st' else Inl Undefined_behaviour))"])
  fix loop rules st r
  assume IH: "\<And>rules st y. loop rules st = Some y \<Longrightarrow> \<forall>st'. y = Inr st' \<longrightarrow>
           (debug_fits n (st_debug st') \<longrightarrow> debug_fits n (st_debug st))
         \<and> (debug_fits n (st_debug st) \<longrightarrow>
              StemWord_loop_sized n rules st
                = Some (if debug_fits n (st_debug st') then Inr st' else Inl Undefined_behaviour))"
    and body: "(if st_restem st then
        (case bucket_of rules (st_stem st) of
           None \<Rightarrow> Some (Inl Undefined_behaviour)
         | Some bucket \<Rightarrow>
             (case StemWord_scan bucket (st\<lparr>st_restem := False\<rparr>) of
                Inl e \<Rightarrow> Some (Inl e)
              | Inr st' \<Rightarrow> loop rules st'))
      else Some (Inr st)) = Some r"
  show "\<forall>st'. r = Inr st' \<longrightarrow>
           (debug_fits n (st_debug st') \<longrightarrow> debug_fits n (st_debug st))
         \<and> (debug_fits n (st_debug st) \<longrightarrow>
              StemWord_loop_sized n rules st
                = Some (if debug_fits n (st_debug st') then Inr st' else Inl Undefined_behaviour))"
  proof (intro allI impI)
    fix st'
    assume r: "r = Inr st'"
    show "(debug_fits n (st_debug st') \<longrightarrow> debug_fits n (st_debug st))
         \<and> (debug_fits n (st_debug st) \<longrightarrow>
              StemWord_loop_sized n rules st
                = Some (if debug_fits n (st_debug st') then Inr st' else Inl Undefined_behaviour))"
    proof (cases "st_restem st")
      case False
      with body r have "st' = st"
        by simp
      with False show ?thesis
        by (subst StemWord_loop_sized.simps) simp
    next
      case True
      with body r obtain bucket st1
        where b: "bucket_of rules (st_stem st) = Some bucket"
          and s: "StemWord_scan bucket (st\<lparr>st_restem := False\<rparr>) = Inr st1"
          and l: "loop rules st1 = Some r"
        by (auto split: option.splits sum.splits)
      from IH [OF l] r
      have mono: "debug_fits n (st_debug st') \<longrightarrow> debug_fits n (st_debug st1)"
        and go: "debug_fits n (st_debug st1) \<longrightarrow>
              StemWord_loop_sized n rules st1
                = Some (if debug_fits n (st_debug st') then Inr st' else Inl Undefined_behaviour)"
        by simp_all
      have prev: "debug_fits n (st_debug st1) \<Longrightarrow> debug_fits n (st_debug st)"
        using scan_debug_fits [OF s] by simp
      have "StemWord_loop_sized n rules st
              = (if \<not> debug_fits n (st_debug st1) then Some (Inl Undefined_behaviour)
                 else StemWord_loop_sized n rules st1)"
        using True b s by (subst StemWord_loop_sized.simps) simp
      with mono go prev show ?thesis
        by auto
    qed
  qed
qed

lemma StemWord_sized_eq:
  assumes "StemWord word rules debug = Some (Inr (stem, trace))"
  shows "StemWord_sized n word rules debug
           = Some (if debug_fits n trace then Inr (stem, trace) else Inl Undefined_behaviour)"
proof (cases "IsValid (take 254 word)")
  case False
  with assms show ?thesis
    by (auto simp: StemWord_unfold StemWord_sized_def strncpy_def Let_def)
next
  case True
  let ?st = "\<lparr>st_stem = take 254 word, st_intact = True, st_restem = True,
                  st_debug = map_option (\<lambda>_. take 254 word) debug\<rparr>"
  from assms True obtain r where l: "StemWord_loop rules ?st = Some r"
    and r: "map_sum (\<lambda>e. e) (\<lambda>st. (st_stem st, st_debug st)) r = Inr (stem, trace)"
    unfolding StemWord_unfold by auto
  from r obtain st' where st': "r = Inr st'" "st_stem st' = stem" "st_debug st' = trace"
    by (cases r) auto
  from loop_sized [OF l, of n] st'
  have mono: "debug_fits n trace \<longrightarrow> debug_fits n (st_debug ?st)"
    and go: "debug_fits n (st_debug ?st) \<longrightarrow>
              StemWord_loop_sized n rules ?st
                = Some (if debug_fits n trace then Inr st' else Inl Undefined_behaviour)"
    by simp_all
  have seed: "debug_fits n (st_debug ?st) \<Longrightarrow> debug_fits n (map_option (\<lambda>_. []) debug)"
    by (cases debug) (auto simp: debug_fits_def)
  show ?thesis
  proof (cases "debug_fits n trace")
    case True
    with mono go seed st' \<open>IsValid (take 254 word)\<close> show ?thesis
      by (simp add: StemWord_sized_def strncpy_def Let_def option.map_comp comp_def)
  next
    case False
    with go seed st' \<open>IsValid (take 254 word)\<close> show ?thesis
      by (simp add: StemWord_sized_def strncpy_def Let_def option.map_comp comp_def)
  qed
qed

lemma horses_run:
  "StemWord ''horses'' example_rules (Some []) =
     Some (Inr (''horse'', Some ''horses =(3:s1>)=> horse''))"
  unfolding StemWord_unfold
  apply (simp add: IsValid_def first_char_def)
  apply (subst StemWord_loop.simps)
  apply (simp add: example_rules_def example_bucket_def stem_eval)
  apply (subst StemWord_loop.simps)
  apply (simp add: example_rules_def example_bucket_def stem_eval)
  apply (subst StemWord_loop.simps)
  apply simp
  done

subsection \<open>When the call returns\<close>

text \<open>
  C5, as amended. A call of the stemming engine is a function of the word, the table, the
  trace request and the size of the trace buffer. On a word of letters a to z and a table
  of 26 buckets whose remove counts are not negative and whose append strings consist of
  letters a to z, the call ends whenever the continuing rules cannot go on for ever: some
  measure \<open>m\<close> of the stem gets smaller in every pass that a continuing rule wins (the
  length, when the continuing rules shorten the stem; for rules that keep the length, as
  \<open>i1y>\<close> and \<open>cn1t>\<close>, a measure that also counts the last letter). It then returns
  a stem, and does so without an error iff no trace is requested or the trace fits the
  buffer of the caller; otherwise the unchecked \<open>strcat\<close> runs past that buffer. For
  every table the call returns the word unmodified (its first 254 characters), under the
  same condition on the buffer, with the empty trace when the word is unacceptable, and
  with the seeded trace when the word is acceptable and every rule of the bucket of its
  last letter fails to match or has an unacceptable candidate.
\<close>

theorem stemming_returns:
  "(proper_table rules \<and> list_all bucket_letter word
     \<and> (\<forall>st bucket st'. length (st_stem st) \<le> 254
            \<and> bucket_of rules (st_stem st) = Some bucket
            \<and> StemWord_scan bucket (st\<lparr>st_restem := False\<rparr>) = Inr st' \<and> st_restem st'
          \<longrightarrow> (m (st_stem st') :: nat) < m (st_stem st)) \<longrightarrow>
      (\<exists>stem trace. StemWord word rules debug = Some (Inr (stem, trace))
         \<and> StemWord_sized debug_size word rules debug
             = Some (if debug_fits debug_size trace then Inr (stem, trace)
                     else Inl Undefined_behaviour)))
   \<and> (\<not> IsValid (take 254 word) \<longrightarrow>
        StemWord word rules debug = Some (Inr (take 254 word, map_option (\<lambda>_. []) debug))
        \<and> StemWord_sized debug_size word rules debug
            = Some (if debug_fits debug_size (map_option (\<lambda>_. []) debug)
                    then Inr (take 254 word, map_option (\<lambda>_. []) debug)
                    else Inl Undefined_behaviour))
   \<and> (IsValid (take 254 word) \<and> bucket_of rules (take 254 word) = Some bucket
       \<and> (\<forall>r \<in> set bucket. \<not> RuleMatches r (take 254 word) True
              \<or> (\<exists>c. ApplyRule r (take 254 word) = Inr c \<and> \<not> IsValid c)) \<longrightarrow>
        StemWord word rules debug
          = Some (Inr (take 254 word, map_option (\<lambda>_. take 254 word) debug))
        \<and> StemWord_sized debug_size word rules debug
            = Some (if debug_fits debug_size (map_option (\<lambda>_. take 254 word) debug)
                    then Inr (take 254 word, map_option (\<lambda>_. take 254 word) debug)
                    else Inl Undefined_behaviour))"
proof (intro conjI impI)
  assume a: "proper_table rules \<and> list_all bucket_letter word
     \<and> (\<forall>st bucket st'. length (st_stem st) \<le> 254
            \<and> bucket_of rules (st_stem st) = Some bucket
            \<and> StemWord_scan bucket (st\<lparr>st_restem := False\<rparr>) = Inr st' \<and> st_restem st'
          \<longrightarrow> m (st_stem st') < m (st_stem st))"
  have "\<exists>stem trace. StemWord word rules debug = Some (Inr (stem, trace))"
  proof (cases "IsValid (take 254 word)")
    case False
    then show ?thesis
      by (simp add: StemWord_unfold)
  next
    case True
    let ?st = "\<lparr>st_stem = take 254 word, st_intact = True, st_restem = True,
                  st_debug = map_option (\<lambda>_. take 254 word) debug\<rparr>"
    from a have letters: "list_all bucket_letter (st_stem ?st)"
      by (auto simp: list_all_iff dest: in_set_takeD)
    have "\<exists>st'. StemWord_loop rules ?st = Some (Inr st')"
    proof (rule loop_returns [where m = m])
      show "proper_table rules"
        using a by simp
      show "length (st_stem ?st) \<le> 254" "IsValid (st_stem ?st)"
        using True by simp_all
      show "list_all bucket_letter (st_stem ?st)"
        by (rule letters)
    next
      fix st bucket st'
      assume "length (st_stem st) \<le> 254" "bucket_of rules (st_stem st) = Some bucket"
        "StemWord_scan bucket (st\<lparr>st_restem := False\<rparr>) = Inr st'" "st_restem st'"
      with a show "m (st_stem st') < m (st_stem st)"
        by blast
    qed
    with True show ?thesis
      by (auto simp: StemWord_unfold)
  qed
  then obtain stem trace where "StemWord word rules debug = Some (Inr (stem, trace))"
    by blast
  with StemWord_sized_eq [OF this, of debug_size]
  show "\<exists>stem trace. StemWord word rules debug = Some (Inr (stem, trace))
         \<and> StemWord_sized debug_size word rules debug
             = Some (if debug_fits debug_size trace then Inr (stem, trace)
                     else Inl Undefined_behaviour)"
    by blast
next
  assume "\<not> IsValid (take 254 word)"
  then have "StemWord word rules debug = Some (Inr (take 254 word, map_option (\<lambda>_. []) debug))"
    by (simp add: StemWord_unfold)
  with StemWord_sized_eq [OF this, of debug_size]
  show "StemWord word rules debug = Some (Inr (take 254 word, map_option (\<lambda>_. []) debug))"
    "StemWord_sized debug_size word rules debug
            = Some (if debug_fits debug_size (map_option (\<lambda>_. []) debug)
                    then Inr (take 254 word, map_option (\<lambda>_. []) debug)
                    else Inl Undefined_behaviour)"
    by simp_all
next
  assume a: "IsValid (take 254 word) \<and> bucket_of rules (take 254 word) = Some bucket
       \<and> (\<forall>r \<in> set bucket. \<not> RuleMatches r (take 254 word) True
              \<or> (\<exists>c. ApplyRule r (take 254 word) = Inr c \<and> \<not> IsValid c))"
  let ?st = "\<lparr>st_stem = take 254 word, st_intact = True, st_restem = True,
                  st_debug = map_option (\<lambda>_. take 254 word) debug\<rparr>"
  have "StemWord_scan (bucket @ []) (?st\<lparr>st_restem := False\<rparr>)
          = StemWord_scan [] (?st\<lparr>st_restem := False\<rparr>)"
    by (rule scan_skip) (use a in simp)
  then have scan: "StemWord_scan bucket (?st\<lparr>st_restem := False\<rparr>)
                     = Inr (?st\<lparr>st_restem := False\<rparr>)"
    by simp
  have "StemWord_loop rules ?st = StemWord_loop rules (?st\<lparr>st_restem := False\<rparr>)"
    using a scan by (subst StemWord_loop.simps) simp
  also have "\<dots> = Some (Inr (?st\<lparr>st_restem := False\<rparr>))"
    by (subst StemWord_loop.simps) simp
  finally have "StemWord word rules debug
          = Some (Inr (take 254 word, map_option (\<lambda>_. take 254 word) debug))"
    using a by (simp add: StemWord_unfold)
  with StemWord_sized_eq [OF this, of debug_size]
  show "StemWord word rules debug
          = Some (Inr (take 254 word, map_option (\<lambda>_. take 254 word) debug))"
    "StemWord_sized debug_size word rules debug
            = Some (if debug_fits debug_size (map_option (\<lambda>_. take 254 word) debug)
                    then Inr (take 254 word, map_option (\<lambda>_. take 254 word) debug)
                    else Inl Undefined_behaviour)"
    by simp_all
qed

theorem stemming_returns_witness:
  "StemWord_sized 4095 ''taxi'' keeping_rules None = Some (Inr (''taxy'', None))
   \<and> StemWord_sized 4095 ''horses'' example_rules (Some [])
       = Some (Inr (''horse'', Some ''horses =(3:s1>)=> horse''))
   \<and> StemWord_sized 10 ''horses'' example_rules (Some []) = Some (Inl Undefined_behaviour)
   \<and> StemWord_sized 4095 ''by'' example_rules (Some []) = Some (Inr (''by'', Some []))
   \<and> StemWord_sized 4095 ''cat'' example_rules (Some []) = Some (Inr (''cat'', Some ''cat''))
   \<and> LoadRules (Some (''i1y>'' @ [CHR 0x0A] @ ''cn1t>'' @ [CHR 0x0A] @ ''end0.''))
       = Some (Inr keeping_rules)"
proof -
  have keep: "\<forall>st bucket st'. length (st_stem st) \<le> 254
            \<and> bucket_of keeping_rules (st_stem st) = Some bucket
            \<and> StemWord_scan bucket (st\<lparr>st_restem := False\<rparr>) = Inr st' \<and> st_restem st'
          \<longrightarrow> keeping_measure (st_stem st') < keeping_measure (st_stem st)"
    using keeping_decreases by blast
  have short: "\<forall>st bucket st'. length (st_stem st) \<le> 254
            \<and> bucket_of example_rules (st_stem st) = Some bucket
            \<and> StemWord_scan bucket (st\<lparr>st_restem := False\<rparr>) = Inr st' \<and> st_restem st'
          \<longrightarrow> length (st_stem st') < length (st_stem st)"
    using shortening_decreases [OF example_shortening] by blast
  have letters: "list_all bucket_letter ''taxi''" "list_all bucket_letter ''horses''"
    by (simp_all add: bucket_letter_def char_code_def)
  from stemming_returns [of keeping_rules "''taxi''" keeping_measure None 4095]
    keeping_proper letters(1) keep keeping_run
  have w1: "StemWord_sized 4095 ''taxi'' keeping_rules None = Some (Inr (''taxy'', None))"
    by (auto simp: debug_fits_def)
  from stemming_returns [of example_rules "''horses''" length "Some []" 4095]
    shortening_proper [OF example_shortening] letters(2) short horses_run
  have w2: "StemWord_sized 4095 ''horses'' example_rules (Some [])
       = Some (Inr (''horse'', Some ''horses =(3:s1>)=> horse''))"
    by (auto simp: debug_fits_def)
  from stemming_returns [of example_rules "''horses''" length "Some []" 10]
    shortening_proper [OF example_shortening] letters(2) short horses_run
  have w3: "StemWord_sized 10 ''horses'' example_rules (Some []) = Some (Inl Undefined_behaviour)"
    by (auto simp: debug_fits_def)
  from stemming_returns [of example_rules "''by''" length "Some []" 4095]
  have w4: "StemWord_sized 4095 ''by'' example_rules (Some []) = Some (Inr (''by'', Some []))"
    by (simp add: IsValid_def first_char_def debug_fits_def)
  from stemming_returns [of example_rules "''cat''" length "Some []" 4095 "[]"]
  have w5: "StemWord_sized 4095 ''cat'' example_rules (Some [])
              = Some (Inr (''cat'', Some ''cat''))"
    by (simp add: IsValid_def first_char_def debug_fits_def bucket_of_def example_rules_def
        char_code_def)
  from w1 w2 w3 w4 w5 keeping_compiled show ?thesis
    by simp
qed

subsection \<open>A table on which the loop does not end\<close>

lemma looping_compiled:
  "LoadRules (Some (''a1a>'' @ [CHR 0x0A] @ ''end0.'')) = Some (Inr looping_rules)"
  by (simp add: load_eval looping_rules_def)

lemma loop_diverges_aux:
  assumes "StemWord_loop rules st = Some y"
  shows "\<not> (rules = looping_rules \<and> st_stem st = ''banana'' \<and> st_restem st)"
proof (rule StemWord_loop.raw_induct [OF _ assms,
    where P = "\<lambda>rules st y. \<not> (rules = looping_rules \<and> st_stem st = ''banana'' \<and> st_restem st)"])
  fix loop rules st y
  assume IH: "\<And>rules st y. loop rules st = Some y \<Longrightarrow> \<not> (rules = looping_rules \<and> st_stem st = ''banana'' \<and> st_restem st)"
    and body: "(if st_restem st then
        (case bucket_of rules (st_stem st) of
           None \<Rightarrow> Some (Inl Undefined_behaviour)
         | Some bucket \<Rightarrow>
             (case StemWord_scan bucket (st\<lparr>st_restem := False\<rparr>) of
                Inl e \<Rightarrow> Some (Inl e)
              | Inr st' \<Rightarrow> loop rules st'))
      else Some (Inr st)) = Some y"
  show "\<not> (rules = looping_rules \<and> st_stem st = ''banana'' \<and> st_restem st)"
  proof
    assume a: "rules = looping_rules \<and> st_stem st = ''banana'' \<and> st_restem st"
    then have b: "bucket_of rules (st_stem st) = Some [\<lparr>intact = False, remove = 1, restem = True, suffix = ''a'', append_str = ''a'', id_str = ''(1:a1a>)''\<rparr>]"
      by (simp add: bucket_of_def looping_rules_def char_code_def)
    have "\<exists>st'. StemWord_scan [\<lparr>intact = False, remove = 1, restem = True, suffix = ''a'', append_str = ''a'', id_str = ''(1:a1a>)''\<rparr>] (st\<lparr>st_restem := False\<rparr>) = Inr st' \<and> st_stem st' = ''banana'' \<and> st_restem st'"
      using a by (simp add: RuleMatches_def ApplyRule_def strncpy_def strncat_def IsValid_def first_char_def Let_def)
    then obtain st' where s: "StemWord_scan [\<lparr>intact = False, remove = 1, restem = True, suffix = ''a'', append_str = ''a'', id_str = ''(1:a1a>)''\<rparr>] (st\<lparr>st_restem := False\<rparr>) = Inr st'"
       and st': "st_stem st' = ''banana'' \<and> st_restem st'"
      by blast
    from body a b s have "loop rules st' = Some y"
      by simp
    from IH [OF this] a st' show False
      by simp
  qed
qed

lemma sized_loop_diverges:
  assumes "StemWord_loop_sized n rules st = Some y"
  shows "\<not> (rules = looping_rules \<and> st_stem st = ''banana'' \<and> st_restem st \<and> st_debug st = None)"
proof (rule StemWord_loop_sized.raw_induct [OF _ assms,
    where P = "\<lambda>n rules st y.
      \<not> (rules = looping_rules \<and> st_stem st = ''banana'' \<and> st_restem st \<and> st_debug st = None)"])
  fix loop n rules st y
  assume IH: "\<And>n rules st y. loop n rules st = Some y \<Longrightarrow>
      \<not> (rules = looping_rules \<and> st_stem st = ''banana'' \<and> st_restem st \<and> st_debug st = None)"
    and body: "(if st_restem st then
        (case bucket_of rules (st_stem st) of
           None \<Rightarrow> Some (Inl Undefined_behaviour)
         | Some bucket \<Rightarrow>
             (case StemWord_scan bucket (st\<lparr>st_restem := False\<rparr>) of
                Inl e \<Rightarrow> Some (Inl e)
              | Inr st' \<Rightarrow>
                  if \<not> debug_fits n (st_debug st') then Some (Inl Undefined_behaviour)
                  else loop n rules st'))
      else Some (Inr st)) = Some y"
  show "\<not> (rules = looping_rules \<and> st_stem st = ''banana'' \<and> st_restem st \<and> st_debug st = None)"
  proof
    assume a: "rules = looping_rules \<and> st_stem st = ''banana'' \<and> st_restem st \<and> st_debug st = None"
    then have b: "bucket_of rules (st_stem st) = Some [\<lparr>intact = False, remove = 1,
        restem = True, suffix = ''a'', append_str = ''a'', id_str = ''(1:a1a>)''\<rparr>]"
      by (simp add: bucket_of_def looping_rules_def char_code_def)
    have "\<exists>st'. StemWord_scan [\<lparr>intact = False, remove = 1, restem = True, suffix = ''a'',
             append_str = ''a'', id_str = ''(1:a1a>)''\<rparr>] (st\<lparr>st_restem := False\<rparr>) = Inr st'
           \<and> st_stem st' = ''banana'' \<and> st_restem st' \<and> st_debug st' = None"
      using a by (simp add: stem_eval)
    then obtain st' where s: "StemWord_scan [\<lparr>intact = False, remove = 1, restem = True,
         suffix = ''a'', append_str = ''a'', id_str = ''(1:a1a>)''\<rparr>] (st\<lparr>st_restem := False\<rparr>)
           = Inr st'"
       and st': "st_stem st' = ''banana'' \<and> st_restem st' \<and> st_debug st' = None"
      by blast
    from body a b s st' have "loop n rules st' = Some y"
      by (simp add: debug_fits_def)
    from IH [OF this] a st' show False
      by simp
  qed
qed

text \<open>
  The claim as stated fails: the rule file \<open>a1a>\<close>, \<open>end0.\<close> compiles, and on the
  acceptable word banana its rule replaces the final a by an a and continues, for ever:
  the call does not return, with or without a bound on the trace buffer.
\<close>

theorem stemming_diverges:
  "LoadRules (Some (''a1a>'' @ [CHR 0x0A] @ ''end0.'')) = Some (Inr looping_rules)
   \<and> IsValid ''banana''
   \<and> StemWord ''banana'' looping_rules None = None
   \<and> StemWord_sized 4095 ''banana'' looping_rules None = None"
proof -
  have "StemWord ''banana'' looping_rules None = None"
  proof (cases "StemWord_loop looping_rules
      \<lparr>st_stem = ''banana'', st_intact = True, st_restem = True, st_debug = None\<rparr>")
    case None
    then show ?thesis
      by (simp add: StemWord_unfold IsValid_def first_char_def)
  next
    case (Some y)
    from loop_diverges_aux [OF this] show ?thesis
      by simp
  qed
  moreover have "StemWord_sized 4095 ''banana'' looping_rules None = None"
  proof (cases "StemWord_loop_sized 4095 looping_rules
      \<lparr>st_stem = ''banana'', st_intact = True, st_restem = True, st_debug = None\<rparr>")
    case None
    then show ?thesis
      by (simp add: StemWord_sized_def strncpy_def debug_fits_def IsValid_def first_char_def)
  next
    case (Some y)
    from sized_loop_diverges [OF this] show ?thesis
      by simp
  qed
  ultimately show ?thesis
    using looping_compiled by (simp add: IsValid_def first_char_def)
qed

end
